theory Spec2Isabelle
  imports Main "HOL-Library.Char_ord" "HOL-Library.List_Lexorder" "HOL-Library.Multiset" "HOL-Library.AList"
begin

section \<open>Strings\<close>

text \<open>
  A JavaScript string is modelled as a \<open>string\<close>: a list of code units below 256.
  The string methods the program uses are written out below, each under the name of the
  method it stands for.
\<close>

text \<open>\<^verbatim>\<open>s.startsWith(p)\<close>, \<^verbatim>\<open>s.endsWith(p)\<close> and \<^verbatim>\<open>s.includes(p)\<close>.\<close>

definition startsWith :: "string \<Rightarrow> string \<Rightarrow> bool" where
  "startsWith s p = (take (length p) s = p)"

definition endsWith :: "string \<Rightarrow> string \<Rightarrow> bool" where
  "endsWith s p = (length p \<le> length s \<and> drop (length s - length p) s = p)"

fun includesStr :: "string \<Rightarrow> string \<Rightarrow> bool" where
  "includesStr [] p = (p = [])"
| "includesStr (c # cs) p = (startsWith (c # cs) p \<or> includesStr cs p)"

text \<open>\<^verbatim>\<open>s.split(sep)\<close> for a separator of one character: never the empty list.\<close>

fun splitStr :: "char \<Rightarrow> string \<Rightarrow> string list" where
  "splitStr sep [] = [[]]"
| "splitStr sep (c # cs) =
     (if c = sep then [] # splitStr sep cs
      else (case splitStr sep cs of
              [] \<Rightarrow> [[c]]
            | l # ls \<Rightarrow> (c # l) # ls))"

text \<open>\<^verbatim>\<open>parts.join(sep)\<close>.\<close>

fun joinStr :: "string \<Rightarrow> string list \<Rightarrow> string" where
  "joinStr sep [] = []"
| "joinStr sep [p] = p"
| "joinStr sep (p # q # ps) = p @ sep @ joinStr sep (q # ps)"

text \<open>
  \<^verbatim>\<open>s.trim()\<close> removes white space and line terminators from both ends. Below 256 these
  are tab, line feed, vertical tab, form feed, carriage return, space and the no-break
  space.
\<close>

definition isWhiteSpace :: "char \<Rightarrow> bool" where
  "isWhiteSpace c = (of_char c \<in> {9, 10, 11, 12, 13, 32, 160 :: nat})"

definition trim :: "string \<Rightarrow> string" where
  "trim s = rev (dropWhile isWhiteSpace (rev (dropWhile isWhiteSpace s)))"

text \<open>\<^verbatim>\<open>n.toString()\<close> for a non-negative integer: its decimal digits.\<close>

definition digit_char :: "nat \<Rightarrow> char" where
  "digit_char d = ''0123456789'' ! d"

function toString :: "nat \<Rightarrow> string" where
  "toString n = (if n < 10 then [digit_char n] else toString (n div 10) @ [digit_char (n mod 10)])"
  by pat_completeness auto
termination
  by (relation "measure id") auto

declare toString.simps [simp del]

text \<open>\<^verbatim>\<open>s.padStart(w, '0')\<close>: a string of length \<open>w\<close> or more is returned as it is.\<close>

definition padStart :: "nat \<Rightarrow> char \<Rightarrow> string \<Rightarrow> string" where
  "padStart w c s = replicate (w - length s) c @ s"

section \<open>Errors, the network and the world\<close>

text \<open>
  A thrown value is an \<open>Error\<close> with its message, or some other value. A function that
  can throw returns \<open>js_error + 'a\<close>, with \<open>Inl\<close> for the thrown value.
\<close>

datatype js_error = Error string | NonError string

text \<open>
  \<^verbatim>\<open>fetch(url)\<close> either rejects (with a \<open>TypeError\<close>, an \<open>Error\<close>, whose message is
  given) or yields a response. The network is an oracle with a state of its own:
  \<open>fetch url n\<close> is the outcome and the next state of the network.
\<close>

datatype response = Response (ok: bool) (status: nat) (body: string)

type_synonym 'n fetcher = "string \<Rightarrow> 'n \<Rightarrow> (string + response) \<times> 'n"

section \<open>The manifest resolver\<close>

text \<open>\<^verbatim>\<open>m3u8Url.split('/').slice(0, -1).join('/')\<close>\<close>

definition baseUrlOf :: "string \<Rightarrow> string" where
  "baseUrlOf m3u8Url = joinStr ''/'' (butlast (splitStr CHR ''/'' m3u8Url))"

text \<open>
  The part of \<open>parseM3u8\<close> after the fetch: split at line feeds, trim each line, keep the
  non-empty lines that do not start with \<open>#\<close>, and prefix the base address to the lines
  that do not start with \<open>http\<close>.
\<close>

definition parseText :: "string \<Rightarrow> string \<Rightarrow> string list" where
  "parseText m3u8Url text =
     (let baseUrl = baseUrlOf m3u8Url in
      map (\<lambda>line. if startsWith line ''http'' then line else baseUrl @ ''/'' @ line)
        (filter (\<lambda>line. line \<noteq> [] \<and> \<not> startsWith line ''#'')
          (map trim (splitStr CHR 0x0A text))))"

definition parseM3u8 :: "'n fetcher \<Rightarrow> string \<Rightarrow> 'n \<Rightarrow> (js_error + string list) \<times> 'n" where
  "parseM3u8 fetch m3u8Url n =
     (case fetch m3u8Url n of
        (Inl msg, n') \<Rightarrow> (Inl (Error msg), n')
      | (Inr res, n') \<Rightarrow>
          if \<not> ok res then (Inl (Error (''Failed to get m3u8: '' @ toString (status res))), n')
          else (Inr (parseText m3u8Url (body res)), n'))"

text \<open>\<open>isMasterPlaylist\<close>: the text contains the stream directive anywhere.\<close>

definition isMasterPlaylist :: "'n fetcher \<Rightarrow> string \<Rightarrow> 'n \<Rightarrow> (js_error + bool) \<times> 'n" where
  "isMasterPlaylist fetch u n =
     (case fetch u n of
        (Inl msg, n') \<Rightarrow> (Inl (Error msg), n')
      | (Inr res, n') \<Rightarrow>
          if \<not> ok res then (Inl (Error (''Failed to fetch m3u8: '' @ toString (status res))), n')
          else (Inr (includesStr (body res) ''#EXT-X-STREAM-INF''), n'))"

text \<open>
  The three attribute patterns of \<open>chooseM3u8\<close>. \<open>execAttr key cls s\<close> is the first group
  of the leftmost match of \<open>key\<close> followed by one or more characters of the class \<open>cls\<close>,
  taken greedily: \<^verbatim>\<open>/BANDWIDTH=(\d+)/\<close> and \<^verbatim>\<open>/RESOLUTION=([0-9x]+)/\<close>.
  \<open>execQuoted\<close> is \<^verbatim>\<open>/NAME="([^"]+)"/\<close>: the group must be followed by a quote.
\<close>

definition isDigit :: "char \<Rightarrow> bool" where
  "isDigit c = (48 \<le> (of_char c :: nat) \<and> (of_char c :: nat) \<le> 57)"

fun execAttr :: "string \<Rightarrow> (char \<Rightarrow> bool) \<Rightarrow> string \<Rightarrow> string option" where
  "execAttr key cls [] = None"
| "execAttr key cls (c # cs) =
     (let grp = takeWhile cls (drop (length key) (c # cs)) in
      if startsWith (c # cs) key \<and> grp \<noteq> [] then Some grp else execAttr key cls cs)"

fun execQuoted :: "string \<Rightarrow> string \<Rightarrow> string option" where
  "execQuoted key [] = None"
| "execQuoted key (c # cs) =
     (let rest = drop (length key) (c # cs);
          grp = takeWhile (\<lambda>x. x \<noteq> CHR 0x22) rest in
      if startsWith (c # cs) key \<and> grp \<noteq> [] \<and> startsWith (dropWhile (\<lambda>x. x \<noteq> CHR 0x22) rest) [CHR 0x22]
      then Some grp else execQuoted key cs)"

record stream_info =
  name :: "string option"
  resolution :: "string option"
  bandwidth :: "string option"
  url :: string

text \<open>
  \<open>lineAt lines i\<close> is \<^verbatim>\<open>lines[i]\<close>: \<open>None\<close> stands for \<open>undefined\<close>, the value of an
  index out of range.
\<close>

definition lineAt :: "string list \<Rightarrow> nat \<Rightarrow> string option" where
  "lineAt lines i = (if i < length lines then Some (lines ! i) else None)"

text \<open>
  The entry pushed for a directive at index \<open>i\<close> of the trimmed lines. For the last
  line, \<^verbatim>\<open>lines[i + 1]\<close> is \<open>undefined\<close>: the optional call yields \<open>undefined\<close>, which
  is falsy, and the template prints it as the word \<open>undefined\<close>.
\<close>

definition streamInfoAt :: "string \<Rightarrow> string list \<Rightarrow> nat \<Rightarrow> stream_info" where
  "streamInfoAt baseUrl lines i =
     \<lparr> name = execQuoted (''NAME='' @ [CHR 0x22]) (lines ! i),
       resolution = execAttr ''RESOLUTION='' (\<lambda>c. isDigit c \<or> c = CHR ''x'') (lines ! i),
       bandwidth = execAttr ''BANDWIDTH='' isDigit (lines ! i),
       url = (case lineAt lines (i + 1) of
                None \<Rightarrow> baseUrl @ ''/'' @ ''undefined''
              | Some l \<Rightarrow> if startsWith l ''http'' then l else baseUrl @ ''/'' @ l) \<rparr>"

text \<open>The loop of \<open>chooseM3u8\<close> over the indices of the trimmed lines.\<close>

function streamInfosFrom :: "string \<Rightarrow> string list \<Rightarrow> nat \<Rightarrow> stream_info list \<Rightarrow> stream_info list" where
  "streamInfosFrom baseUrl lines i streamInfos =
     (if i < length lines then
        (if startsWith (lines ! i) ''#EXT-X-STREAM-INF''
         then streamInfosFrom baseUrl lines (i + 1) (streamInfos @ [streamInfoAt baseUrl lines i])
         else streamInfosFrom baseUrl lines (i + 1) streamInfos)
      else streamInfos)"
  by pat_completeness auto
termination
  by (relation "measure (\<lambda>(b, ls, i, acc). length ls - i)") auto

declare streamInfosFrom.simps [simp del]

definition streamInfosOf :: "string \<Rightarrow> string \<Rightarrow> stream_info list" where
  "streamInfosOf masterUrl text =
     streamInfosFrom (baseUrlOf masterUrl) (map trim (splitStr CHR 0x0A text)) 0 []"

text \<open>
  \<open>chooseM3u8\<close>. The interactive prompt is a parameter: given the entries it returns the
  index the user selected. Reading \<^verbatim>\<open>streamInfos[selected].url\<close> at an index out of
  range throws a \<open>TypeError\<close>.
\<close>

definition chooseM3u8 ::
  "'n fetcher \<Rightarrow> (stream_info list \<Rightarrow> nat) \<Rightarrow> string \<Rightarrow> 'n \<Rightarrow> (js_error + string) \<times> 'n" where
  "chooseM3u8 fetch prompt masterUrl n =
     (case fetch masterUrl n of
        (Inl msg, n') \<Rightarrow> (Inl (Error msg), n')
      | (Inr res, n') \<Rightarrow>
          if \<not> ok res then (Inl (Error (''Failed to fetch m3u8: '' @ toString (status res))), n')
          else
            (let streamInfos = streamInfosOf masterUrl (body res) in
             if length streamInfos = 0
             then (Inl (Error ''No media streams found in master playlist''), n')
             else
               (let selected = prompt streamInfos in
                if selected < length streamInfos then (Inr (url (streamInfos ! selected)), n')
                else (Inl (Error ''Cannot read properties of undefined''), n'))))"

text \<open>A network that answers every request with the same response.\<close>

definition constFetch :: "response \<Rightarrow> 'n fetcher" where
  "constFetch res = (\<lambda>u n. (Inr res, n))"

section \<open>The retry wrapper\<close>

text \<open>
  An operation with no argument acts on the world: it returns its outcome, a value or a
  thrown error, and the world it leaves. \<open>retryFrom\<close> is the loop of \<open>retry\<close> from the
  counter \<open>i\<close> on. The pause between two attempts only lets time pass and is left out.
  After the loop stands the \<^verbatim>\<open>throw new Error('Unexpected retry failure')\<close>, reached
  when the loop body never runs.
\<close>

type_synonym ('w, 'a) operation = "'w \<Rightarrow> (js_error + 'a) \<times> 'w"

function retryFrom :: "('w, 'a) operation \<Rightarrow> int \<Rightarrow> int \<Rightarrow> ('w, 'a) operation" where
  "retryFrom fn retries i w =
     (if i \<le> retries then
        (case fn w of
           (Inr v, w') \<Rightarrow> (Inr v, w')
         | (Inl e, w') \<Rightarrow>
             if i = retries then (Inl e, w') else retryFrom fn retries (i + 1) w')
      else (Inl (Error ''Unexpected retry failure''), w))"
  by pat_completeness auto
termination
  by (relation "measure (\<lambda>(fn, retries, i, w). nat (retries + 1 - i))") auto

declare retryFrom.simps [simp del]

definition retry :: "('w, 'a) operation \<Rightarrow> int \<Rightarrow> ('w, 'a) operation" where
  "retry fn retries = retryFrom fn retries 0"

text \<open>
  To count invocations, an operation is run beside a counter that every invocation
  increments. \<open>worldAfter fn w k\<close> is the world after \<open>k\<close> invocations in a row, starting
  from \<open>w\<close>, and \<open>nthOutcome fn w k\<close> the outcome of the next invocation.
\<close>

definition counted :: "('w, 'a) operation \<Rightarrow> ('w \<times> nat, 'a) operation" where
  "counted fn = (\<lambda>(w, c). case fn w of (r, w') \<Rightarrow> (r, (w', c + 1)))"

definition worldAfter :: "('w, 'a) operation \<Rightarrow> 'w \<Rightarrow> nat \<Rightarrow> 'w" where
  "worldAfter fn w k = ((\<lambda>x. snd (fn x)) ^^ k) w"

definition nthOutcome :: "('w, 'a) operation \<Rightarrow> 'w \<Rightarrow> nat \<Rightarrow> js_error + 'a" where
  "nthOutcome fn w k = fst (fn (worldAfter fn w k))"

text \<open>
  Two operations on a world that is the number of invocations so far: \<open>failsUntil m v\<close>
  fails \<open>m\<close> times and then returns \<open>v\<close>; \<open>alwaysFails\<close> fails every time, with the
  number of the invocation as its message.
\<close>

definition failsUntil :: "nat \<Rightarrow> 'a \<Rightarrow> (nat, 'a) operation" where
  "failsUntil m v = (\<lambda>s. (if s < m then Inl (Error (toString s)) else Inr v, s + 1))"

definition alwaysFails :: "(nat, 'a) operation" where
  "alwaysFails = (\<lambda>s. (Inl (Error (toString s)), s + 1))"

section \<open>Segment files\<close>

text \<open>
  The name \<open>downloadTs\<close> gives to the file of the segment with a given index:
  \<^verbatim>\<open>`${index.toString().padStart(5, '0')}.ts`\<close>.
\<close>

definition segmentFileName :: "nat \<Rightarrow> string" where
  "segmentFileName index = padStart 5 CHR ''0'' (toString index) @ ''.ts''"

text \<open>
  For the proofs: the last \<open>w\<close> decimal digits of a number, most significant first.
\<close>

fun fixedWidth :: "nat \<Rightarrow> nat \<Rightarrow> string" where
  "fixedWidth 0 n = []"
| "fixedWidth (Suc w) n = fixedWidth w (n div 10) @ [digit_char (n mod 10)]"

section \<open>The world: file system, console, progress bar\<close>

text \<open>
  A directory is named by its path. It holds named entries, kept in the order \<open>readdir\<close>
  lists them; an entry is a regular file with its bytes or a subdirectory. Bytes are
  characters. A path to a file is given resolved: the directory that holds the file, which
  is what \<^verbatim>\<open>path.dirname\<close> names, and the name of the file in it. So
  \<^verbatim>\<open>path.join(folder, name)\<close> is the pair of the folder and the name, and two paths
  are the same file exactly when they are equal.

  The world of a run is the state of the network, the clock \<^verbatim>\<open>Date.now()\<close> reads, the
  directories by path, the lines printed to the console, the value of the progress bar,
  and what the operating system refuses: to create a directory, to open a file for
  writing, to remove a directory, each with the message of the error.
\<close>

datatype entry = File string | Directory

type_synonym path = "string \<times> string"

definition pathJoin :: "string \<Rightarrow> string \<Rightarrow> path" where
  "pathJoin folder file = (folder, file)"

definition dirname :: "path \<Rightarrow> string" where
  "dirname p = fst p"

definition basename :: "path \<Rightarrow> string" where
  "basename p = snd p"

datatype log_entry =
  NoTsFilesFound
| DownloadFailed string string
| MergeStarted
| VideoSaved path

record 'n world =
  net :: 'n
  clock :: nat
  dirs :: "string \<rightharpoonup> (string \<times> entry) list"
  console :: "log_entry list"
  progress :: nat
  mkdir_refused :: "string \<rightharpoonup> string"
  open_refused :: "path \<rightharpoonup> string"
  rm_refused :: "string \<rightharpoonup> string"

type_synonym ('n, 'a) action = "('n world, 'a) operation"

text \<open>A function on the network, run in the world.\<close>

definition onNet :: "('n \<Rightarrow> (js_error + 'a) \<times> 'n) \<Rightarrow> ('n, 'a) action" where
  "onNet f w = (case f (net w) of (r, n') \<Rightarrow> (r, w\<lparr>net := n'\<rparr>))"

text \<open>
  The calls to \<open>fs\<close>. \<open>mkdirSync\<close> and \<open>mkdir\<close> are called with \<open>recursive\<close>: a directory
  that exists is left as it is and is no error; otherwise the directory is created empty,
  unless the operating system refuses, and then the error is thrown by \<open>mkdirSync\<close> and
  rejects the promise of \<open>mkdir\<close>.
\<close>

definition existsSync :: "string \<Rightarrow> 'n world \<Rightarrow> bool" where
  "existsSync p w = (dirs w p \<noteq> None)"

definition mkdirSync :: "string \<Rightarrow> ('n, unit) action" where
  "mkdirSync p w =
     (if dirs w p \<noteq> None then (Inr (), w)
      else (case mkdir_refused w p of
              Some msg \<Rightarrow> (Inl (Error msg), w)
            | None \<Rightarrow> (Inr (), w\<lparr>dirs := (dirs w)(p \<mapsto> [])\<rparr>)))"

definition mkdir :: "string \<Rightarrow> ('n, unit) action" where
  "mkdir p = mkdirSync p"

definition readdir :: "string \<Rightarrow> ('n, string list) action" where
  "readdir folder w =
     (case dirs w folder of
        None \<Rightarrow> (Inl (Error ''ENOENT''), w)
      | Some es \<Rightarrow> (Inr (map fst es), w))"

text \<open>
  To open a file for writing creates it empty, or empties it when it exists. It fails when
  the directory does not exist, when the name is that of a subdirectory, and when the
  operating system refuses. \<open>appendBytes\<close> writes bytes at the end of an open file.
\<close>

definition openForWriting :: "path \<Rightarrow> ('n, unit) action" where
  "openForWriting p w =
     (case dirs w (dirname p) of
        None \<Rightarrow> (Inl (Error ''ENOENT''), w)
      | Some es \<Rightarrow>
          (case map_of es (basename p) of
             Some Directory \<Rightarrow> (Inl (Error ''EISDIR''), w)
           | _ \<Rightarrow>
               (case open_refused w p of
                  Some msg \<Rightarrow> (Inl (Error msg), w)
                | None \<Rightarrow>
                    (Inr (), w\<lparr>dirs := (dirs w)(dirname p \<mapsto> AList.update (basename p) (File []) es)\<rparr>))))"

definition appendBytes :: "path \<Rightarrow> string \<Rightarrow> 'n world \<Rightarrow> 'n world" where
  "appendBytes p bytes w =
     (case dirs w (dirname p) of
        None \<Rightarrow> w
      | Some es \<Rightarrow>
          (case map_of es (basename p) of
             Some (File written) \<Rightarrow>
               w\<lparr>dirs := (dirs w)(dirname p \<mapsto> AList.update (basename p) (File (written @ bytes)) es)\<rparr>
           | _ \<Rightarrow> w))"

definition writeFile :: "path \<Rightarrow> string \<Rightarrow> ('n, unit) action" where
  "writeFile p buffer w =
     (case openForWriting p w of
        (Inl e, w') \<Rightarrow> (Inl e, w')
      | (Inr u, w') \<Rightarrow> (Inr (), appendBytes p buffer w'))"

text \<open>
  \<open>rmSync\<close> with \<open>recursive\<close> and \<open>force\<close>: a path that does not exist is not an error;
  any other failure of the removal is thrown.
\<close>

definition rmSync :: "string \<Rightarrow> ('n, unit) action" where
  "rmSync p w =
     (if dirs w p = None then (Inr (), w)
      else (case rm_refused w p of
              Some msg \<Rightarrow> (Inl (Error msg), w)
            | None \<Rightarrow> (Inr (), w\<lparr>dirs := (dirs w)(p := None)\<rparr>)))"

definition cleanup :: "string \<Rightarrow> ('n, unit) action" where
  "cleanup folder = rmSync folder"

text \<open>
  A read stream delivers the bytes of a file in chunks of at most 64 KiB, one \<open>data\<close>
  event each, and then \<open>end\<close>; on a path that is no regular file it emits \<open>error\<close>.
  \<open>createReadStream\<close> gives the chunks and the error, if any. The bytes are those the file
  holds when the stream is created.
\<close>

function chunksOf :: "nat \<Rightarrow> 'a list \<Rightarrow> 'a list list" where
  "chunksOf n xs = (if n = 0 \<or> xs = [] then [] else take n xs # chunksOf n (drop n xs))"
  by pat_completeness auto
termination
  by (relation "measure (\<lambda>(n, xs). length xs)") auto

declare chunksOf.simps [simp del]

definition createReadStream :: "path \<Rightarrow> 'n world \<Rightarrow> string list \<times> js_error option" where
  "createReadStream p w =
     (case dirs w (dirname p) of
        None \<Rightarrow> ([], Some (Error ''ENOENT''))
      | Some es \<Rightarrow>
          (case map_of es (basename p) of
             None \<Rightarrow> ([], Some (Error ''ENOENT''))
           | Some Directory \<Rightarrow> ([], Some (Error ''EISDIR''))
           | Some (File bytes) \<Rightarrow> (chunksOf 65536 bytes, None)))"

text \<open>
  A write stream opens its destination for writing when it is created, and
  \<open>writeChunk\<close> is \<^verbatim>\<open>writeStream.write(chunk)\<close>. The stream of \<open>mergeTsFiles\<close> has no
  listener for \<open>error\<close>: when the destination cannot be opened the error is thrown with
  nothing to catch it, which ends the process; here it ends \<open>mergeTsFiles\<close> like an error
  thrown at the creation of the stream.
\<close>

definition createWriteStream :: "path \<Rightarrow> ('n, unit) action" where
  "createWriteStream outputPath = openForWriting outputPath"

definition writeChunk :: "path \<Rightarrow> 'n world \<Rightarrow> string \<Rightarrow> 'n world" where
  "writeChunk outputPath w chunk = appendBytes outputPath chunk w"

section \<open>The assembler\<close>

text \<open>
  The loop of \<open>mergeTsFiles\<close>: each file is read to its end, every chunk written as it
  arrives, before the next file is opened. An \<open>error\<close> event rejects the promise the
  loop awaits and ends \<open>mergeTsFiles\<close>.
\<close>

fun mergeLoop :: "string \<Rightarrow> path \<Rightarrow> string list \<Rightarrow> ('n, unit) action" where
  "mergeLoop folder outputPath [] w = (Inr (), w)"
| "mergeLoop folder outputPath (file # files) w =
     (case createReadStream (pathJoin folder file) w of
        (chunks, Some e) \<Rightarrow> (Inl e, foldl (writeChunk outputPath) w chunks)
      | (chunks, None) \<Rightarrow> mergeLoop folder outputPath files (foldl (writeChunk outputPath) w chunks))"

definition mergeTsFiles :: "string \<Rightarrow> path \<Rightarrow> ('n, unit) action" where
  "mergeTsFiles folder outputPath w =
     (case readdir folder w of
        (Inl e, w') \<Rightarrow> (Inl e, w')
      | (Inr names, w') \<Rightarrow>
          (let files = sort (filter (\<lambda>f. endsWith f ''.ts'') names) in
           if length files = 0 then (Inr (), w'\<lparr>console := console w' @ [NoTsFilesFound]\<rparr>)
           else
             (case mkdir (dirname outputPath) w' of
                (Inl e, w1) \<Rightarrow> (Inl e, w1)
              | (Inr u, w1) \<Rightarrow>
                  (case createWriteStream outputPath w1 of
                     (Inl e, w2) \<Rightarrow> (Inl e, w2)
                   | (Inr u, w2) \<Rightarrow> mergeLoop folder outputPath files w2))))"

text \<open>
  For the statements: the bytes of the regular file \<open>f\<close> of a directory, and the bytes of
  the regular file at a path. A destination can be written when its directory exists or
  can be created, its name is not that of a subdirectory, and the operating system does not
  refuse to open it.
\<close>

definition fileBytes :: "(string \<times> entry) list \<Rightarrow> string \<Rightarrow> string" where
  "fileBytes es f = (case map_of es f of Some (File bytes) \<Rightarrow> bytes | _ \<Rightarrow> [])"

definition isFile :: "(string \<times> entry) list \<Rightarrow> string \<Rightarrow> bool" where
  "isFile es f = (case map_of es f of Some (File bytes) \<Rightarrow> True | _ \<Rightarrow> False)"

definition readFile :: "'n world \<Rightarrow> path \<Rightarrow> string option" where
  "readFile w p =
     (case dirs w (dirname p) of
        None \<Rightarrow> None
      | Some es \<Rightarrow> (case map_of es (basename p) of Some (File bytes) \<Rightarrow> Some bytes | _ \<Rightarrow> None))"

definition writable :: "'n world \<Rightarrow> path \<Rightarrow> bool" where
  "writable w p \<longleftrightarrow>
     (case dirs w (dirname p) of
        None \<Rightarrow> mkdir_refused w (dirname p) = None
      | Some es \<Rightarrow> map_of es (basename p) \<noteq> Some Directory) \<and>
     open_refused w p = None"

text \<open>
  A world for examples: no network state, the given clock and directories, nothing
  printed, nothing refused.
\<close>

definition worldWith :: "nat \<Rightarrow> (string \<rightharpoonup> (string \<times> entry) list) \<Rightarrow> unit world" where
  "worldWith t d =
     \<lparr> net = (), clock = t, dirs = d, console = [], progress = 0,
       mkdir_refused = Map.empty, open_refused = Map.empty, rm_refused = Map.empty \<rparr>"

section \<open>The segment fetcher\<close>

text \<open>\<open>andThen m f\<close> awaits \<open>m\<close> and goes on with \<open>f\<close>; an error thrown by \<open>m\<close> ends the run.\<close>

definition andThen :: "('w, 'a) operation \<Rightarrow> ('a \<Rightarrow> ('w, 'b) operation) \<Rightarrow> ('w, 'b) operation" where
  "andThen m f w = (case m w of (Inl e, w') \<Rightarrow> (Inl e, w') | (Inr a, w') \<Rightarrow> f a w')"

definition consoleLog :: "log_entry \<Rightarrow> ('n, unit) action" where
  "consoleLog entry w = (Inr (), w\<lparr>console := console w @ [entry]\<rparr>)"

text \<open>
  \<open>downloadTs\<close>, run without interruption: fetch the segment, write it to its file,
  advance the progress bar.
\<close>

definition downloadTs :: "'n fetcher \<Rightarrow> string \<Rightarrow> nat \<Rightarrow> string \<Rightarrow> ('n, unit) action" where
  "downloadTs fetch tsUrl index folder w =
     (case fetch tsUrl (net w) of
        (Inl msg, n') \<Rightarrow> (Inl (Error msg), w\<lparr>net := n'\<rparr>)
      | (Inr res, n') \<Rightarrow>
          if \<not> ok res then (Inl (Error (''HTTP '' @ toString (status res))), w\<lparr>net := n'\<rparr>)
          else
            (case writeFile (pathJoin folder (segmentFileName index)) (body res) (w\<lparr>net := n'\<rparr>) of
               (Inl e, w') \<Rightarrow> (Inl e, w')
             | (Inr u, w') \<Rightarrow> (Inr (), w'\<lparr>progress := progress w' + 1\<rparr>)))"

text \<open>
  The task \<open>downloadM3u8\<close> builds for one segment, run without interruption:
  \<open>downloadTs\<close> under \<open>retry\<close> with the default budget 3, inside a \<open>try\<close> whose \<open>catch\<close>
  prints the locator and the message of an \<open>Error\<close> and swallows whatever was thrown.
\<close>

definition segmentTask :: "'n fetcher \<Rightarrow> string \<Rightarrow> nat \<Rightarrow> string \<Rightarrow> ('n, unit) action" where
  "segmentTask fetch tsUrl index tempFolder w =
     (case retry (downloadTs fetch tsUrl index tempFolder) 3 w of
        (Inr u, w') \<Rightarrow> (Inr (), w')
      | (Inl err, w') \<Rightarrow>
          (case err of
             Error msg \<Rightarrow> (Inr (), w'\<lparr>console := console w' @ [DownloadFailed tsUrl msg]\<rparr>)
           | NonError v \<Rightarrow> (Inr (), w')))"

section \<open>The concurrency scheduler\<close>

text \<open>
  \<open>runWithConcurrency\<close> runs on one thread: its own code between two \<open>await\<close>s runs
  without interruption, and the reactions to settled promises run one at a time from the
  queue of jobs, in the order they were queued, while the scheduler is suspended. The
  promise returned by the \<open>i\<close>-th task is identified with \<open>i\<close>. The tasks themselves are
  not looked into: when a promise settles is up to the environment.

  The jobs: \<open>Finally p\<close> is the callback \<^verbatim>\<open>() => running.delete(p)\<close>; \<open>RaceReaction r p\<close> is
  the reaction of the \<open>r\<close>-th \<^verbatim>\<open>Promise.race(running)\<close> to \<open>p\<close>, which resolves that race if
  it is still open; \<open>AllReaction p\<close> is the reaction of \<^verbatim>\<open>Promise.all([...running])\<close> to \<open>p\<close>;
  \<open>Resume\<close> continues the scheduler after the promise it awaits is resolved.
\<close>

datatype job = Finally nat | RaceReaction nat nat | AllReaction nat | Resume

text \<open>
  Where the scheduler stands: in its own code, at the head of the loop (\<open>Loop\<close>); suspended
  at \<^verbatim>\<open>await Promise.race(running)\<close>, with the number of the race and whether the race is
  resolved; suspended at \<^verbatim>\<open>await Promise.all([...running])\<close>, with the promises of the
  snapshot whose reaction has not run yet; or returned (\<open>Done\<close>).
\<close>

datatype pc = Loop | AwaitRace nat bool | AwaitAll "nat list" | Done

text \<open>
  The state: the index of the next task, the tasks called so far in the order of the
  calls, the set \<open>running\<close> in insertion order, the promises not yet settled (the tasks in
  flight), the reactions registered on each of them in the order of registration, the
  queue of jobs, the number of races created, and where the scheduler stands.
\<close>

record sched =
  nxt :: nat
  started :: "nat list"
  running :: "nat list"
  pending :: "nat set"
  reactions :: "nat \<Rightarrow> job list"
  jobs :: "job list"
  races :: nat
  pc :: pc

definition initial :: sched where
  "initial =
     \<lparr> nxt = 0, started = [], running = [], pending = {}, reactions = (\<lambda>p. []), jobs = [],
       races = 0, pc = Loop \<rparr>"

text \<open>
  \<open>subscribeAll f qs\<close> registers the reaction \<open>f q\<close> on every promise \<open>q\<close> of \<open>qs\<close>, in
  order: on a promise not yet settled the reaction is added to its list; for a settled
  promise the job is queued at once.
\<close>

definition subscribeAll :: "(nat \<Rightarrow> job) \<Rightarrow> nat list \<Rightarrow> sched \<Rightarrow> sched" where
  "subscribeAll f qs s =
     s\<lparr> reactions := (\<lambda>p. if p \<in> set qs \<and> p \<in> pending s then reactions s p @ [f p] else reactions s p),
        jobs := jobs s @ map f (filter (\<lambda>q. q \<notin> pending s) qs) \<rparr>"

text \<open>
  One iteration of the loop, for the task \<open>nxt\<close>. \<open>callTask\<close> is
  \<^verbatim>\<open>const p = task(); running.add(p); p.finally(() => running.delete(p))\<close>, where
  \<open>settledAtReturn\<close> tells whether the promise is already settled when the task returns
  it. \<open>awaitRace\<close> is \<^verbatim>\<open>await Promise.race(running)\<close>, reached when
  \<^verbatim>\<open>running.size >= limit\<close>.
\<close>

definition callTask :: "bool \<Rightarrow> sched \<Rightarrow> sched" where
  "callTask settledAtReturn s =
     (let p = nxt s in
      subscribeAll Finally [p]
        (s\<lparr> nxt := p + 1, started := started s @ [p], running := running s @ [p],
            pending := (if settledAtReturn then pending s else insert p (pending s)),
            reactions := (reactions s)(p := []) \<rparr>))"

definition awaitRace :: "sched \<Rightarrow> sched" where
  "awaitRace s =
     (subscribeAll (RaceReaction (races s)) (running s) s)
       \<lparr> races := races s + 1, pc := AwaitRace (races s) False \<rparr>"

definition startNext :: "nat \<Rightarrow> bool \<Rightarrow> sched \<Rightarrow> sched" where
  "startNext limit settledAtReturn s =
     (let s' = callTask settledAtReturn s in
      if length (running s') \<ge> limit then awaitRace s' else s')"

text \<open>
  After the loop: \<^verbatim>\<open>await Promise.all([...running])\<close>. \<open>Promise.all\<close> of no promise is
  resolved at once.
\<close>

definition awaitAll :: "sched \<Rightarrow> sched" where
  "awaitAll s =
     (let snapshot = running s;
          s1 = subscribeAll AllReaction snapshot s
      in if snapshot = [] then s1\<lparr> jobs := jobs s1 @ [Resume], pc := AwaitAll [] \<rparr>
         else s1\<lparr> pc := AwaitAll snapshot \<rparr>)"

text \<open>A promise settles: its reactions are queued in the order they were registered.\<close>

definition settle :: "nat \<Rightarrow> sched \<Rightarrow> sched" where
  "settle p s =
     s\<lparr> pending := pending s - {p}, jobs := jobs s @ reactions s p,
        reactions := (reactions s)(p := []) \<rparr>"

text \<open>Running one job.\<close>

fun runJob :: "job \<Rightarrow> sched \<Rightarrow> sched" where
  "runJob (Finally p) s = s\<lparr> running := removeAll p (running s) \<rparr>"
| "runJob (RaceReaction r p) s =
     (if pc s = AwaitRace r False then s\<lparr> pc := AwaitRace r True, jobs := jobs s @ [Resume] \<rparr> else s)"
| "runJob (AllReaction p) s =
     (case pc s of
        AwaitAll rest \<Rightarrow>
          if p \<in> set rest then
            (if removeAll p rest = [] then s\<lparr> pc := AwaitAll [], jobs := jobs s @ [Resume] \<rparr>
             else s\<lparr> pc := AwaitAll (removeAll p rest) \<rparr>)
          else s
      | _ \<Rightarrow> s)"
| "runJob Resume s =
     (case pc s of
        AwaitRace r True \<Rightarrow> s\<lparr> pc := Loop \<rparr>
      | AwaitAll [] \<Rightarrow> s\<lparr> pc := Done \<rparr>
      | _ \<Rightarrow> s)"

text \<open>
  The events of a run of \<open>runWithConcurrency\<close> on \<open>n\<close> tasks: the scheduler runs its code
  up to the next iteration or \<open>await\<close> (\<open>Proceed\<close>), a promise in flight settles (\<open>Settle\<close>),
  or the first job of the queue runs (\<open>RunJob\<close>), which happens only while the scheduler
  is suspended or has returned. An event that is not possible in a state gives \<open>None\<close>.
\<close>

datatype event = Proceed bool | Settle nat | RunJob

fun step :: "nat \<Rightarrow> nat \<Rightarrow> event \<Rightarrow> sched \<Rightarrow> sched option" where
  "step n limit (Proceed settledAtReturn) s =
     (if pc s = Loop
      then Some (if nxt s < n then startNext limit settledAtReturn s else awaitAll s)
      else None)"
| "step n limit (Settle p) s = (if p \<in> pending s then Some (settle p s) else None)"
| "step n limit RunJob s =
     (if pc s = Loop then None
      else (case jobs s of [] \<Rightarrow> None | j # js \<Rightarrow> Some (runJob j (s\<lparr> jobs := js \<rparr>))))"

fun runEvents :: "nat \<Rightarrow> nat \<Rightarrow> event list \<Rightarrow> sched \<Rightarrow> sched option" where
  "runEvents n limit [] s = Some s"
| "runEvents n limit (e # es) s =
     (case step n limit e s of None \<Rightarrow> None | Some s' \<Rightarrow> runEvents n limit es s')"

text \<open>
  For the proofs: the jobs queued or registered on a promise in flight; the promise a job
  is about; and the order of the queue: no reaction of a race to a promise \<open>q\<close> that is
  still in \<open>running\<close> stands before the \<open>finally\<close> callback of \<open>q\<close>.
\<close>

definition pendingJobs :: "sched \<Rightarrow> job set" where
  "pendingJobs s = set (jobs s) \<union> (\<Union>p \<in> pending s. set (reactions s p))"

fun promiseOf :: "job \<Rightarrow> nat option" where
  "promiseOf (Finally p) = Some p"
| "promiseOf (RaceReaction r p) = Some p"
| "promiseOf (AllReaction p) = Some p"
| "promiseOf Resume = None"

fun okQueue :: "nat set \<Rightarrow> job list \<Rightarrow> bool" where
  "okQueue R [] = True"
| "okQueue R (Finally p # js) = okQueue (R - {p}) js"
| "okQueue R (RaceReaction r q # js) = (q \<notin> R \<and> okQueue R js)"
| "okQueue R (AllReaction p # js) = okQueue R js"
| "okQueue R (Resume # js) = okQueue R js"

text \<open>The invariant of the scheduler, in four parts.\<close>

definition invCount :: "nat \<Rightarrow> sched \<Rightarrow> bool" where
  "invCount n s \<longleftrightarrow>
     nxt s \<le> n \<and> started s = [0..<nxt s] \<and>
     distinct (running s) \<and> set (running s) \<subseteq> {..<nxt s} \<and>
     pending s \<subseteq> set (running s)"

definition invQueue :: "sched \<Rightarrow> bool" where
  "invQueue s \<longleftrightarrow>
     okQueue (set (running s)) (jobs s) \<and>
     (\<forall>p \<in> pending s. \<exists>rest. reactions s p = Finally p # rest \<and>
         (\<forall>j \<in> set rest. (\<exists>r. j = RaceReaction r p) \<or> j = AllReaction p)) \<and>
     (\<forall>q \<in> set (running s). q \<notin> pending s \<longrightarrow> Finally q \<in> set (jobs s)) \<and>
     (\<forall>j \<in> set (jobs s). \<forall>p. promiseOf j = Some p \<longrightarrow> p < nxt s) \<and>
     (\<forall>r q. RaceReaction r q \<in> pendingJobs s \<longrightarrow> r < races s) \<and>
     (\<forall>j \<in> set (jobs s). \<forall>p. promiseOf j = Some p \<longrightarrow> p \<notin> pending s)"

definition invBound :: "nat \<Rightarrow> sched \<Rightarrow> bool" where
  "invBound limit s \<longleftrightarrow>
     length (running s) \<le> limit \<and>
     (pc s = Loop \<longrightarrow> length (running s) < limit) \<and>
     (\<forall>r. pc s = AwaitRace r True \<longrightarrow> length (running s) < limit \<and> Resume \<in> set (jobs s)) \<and>
     (\<forall>r. pc s = AwaitRace r False \<longrightarrow>
        r < races s \<and> (\<exists>q. RaceReaction r q \<in> pendingJobs s) \<and>
        (\<forall>q. RaceReaction r q \<in> pendingJobs s \<longrightarrow> q \<in> set (running s) \<or> length (running s) < limit))"

definition invFinal :: "nat \<Rightarrow> sched \<Rightarrow> bool" where
  "invFinal n s \<longleftrightarrow>
     (\<forall>rest. pc s = AwaitAll rest \<longrightarrow>
        nxt s = n \<and> pending s \<subseteq> set rest \<and> (rest = [] \<longrightarrow> Resume \<in> set (jobs s)) \<and>
        (\<forall>q \<in> set rest. AllReaction q \<in> pendingJobs s)) \<and>
     (pc s = Done \<longrightarrow> nxt s = n \<and> pending s = {})"

definition inv :: "nat \<Rightarrow> nat \<Rightarrow> sched \<Rightarrow> bool" where
  "inv n limit s \<longleftrightarrow> invCount n s \<and> invQueue s \<and> invBound limit s \<and> invFinal n s"

text \<open>
  The work that is left in a state: the tasks not yet called (each may cost one entry of
  \<open>pending\<close>, one \<open>Finally\<close> reaction, one race with at most \<open>limit\<close> reactions, and one
  suspension), the position in the body, the promises still pending, and the reaction jobs that
  are queued or subscribed.
\<close>

definition queued :: "sched \<Rightarrow> nat" where
  "queued s = length (jobs s) + (\<Sum>p \<in> pending s. length (reactions s p))"

fun pcRank :: "nat \<Rightarrow> pc \<Rightarrow> nat" where
  "pcRank limit Loop = limit + 3"
| "pcRank limit (AwaitRace r resolved) = (if resolved then limit + 3 else limit + 4)"
| "pcRank limit (AwaitAll rest) = (if rest = [] then 0 else 1)"
| "pcRank limit Done = 0"

definition work :: "nat \<Rightarrow> nat \<Rightarrow> sched \<Rightarrow> nat" where
  "work n limit s = (n - nxt s) * (limit + 4) + pcRank limit (pc s) + card (pending s) + queued s"

text \<open>
  A run of three tasks with limit 2 in which the second task settles before the first: two
  calls, the race, the second promise settles and its reactions run; the third call, the next
  race, the first promise settles; the last await, the third promise settles.
\<close>

definition exampleRun :: "event list" where
  "exampleRun =
     [Proceed False, Proceed False, Settle 1, RunJob, RunJob, RunJob,
      Proceed False, Settle 0, RunJob, RunJob, RunJob, RunJob,
      Proceed False, Settle 2, RunJob, RunJob, RunJob, RunJob]"

section \<open>The run\<close>

text \<open>
  In a run the tasks are in progress side by side, each suspended at an \<open>await\<close>. A task
  has not been called yet (\<open>Idle\<close>); or it waits, in the iteration \<open>i\<close> of the loop of
  \<open>retry\<close>, for the answer of the network to the \<open>fetch\<close> of \<open>downloadTs\<close> (\<open>Fetching i\<close>);
  or it waits, in that iteration, for \<open>writeFile\<close> with the bytes it received
  (\<open>Writing i buffer\<close>); or it is over (\<open>Finished\<close>).

  \<open>advance\<close> is what a task does when what it waits for arrives, up to its next \<open>await\<close>.
  \<open>attemptFails\<close> is the \<open>catch\<close> of \<open>retry\<close>, with the budget 3 the task calls it with,
  and behind it the \<open>catch\<close> of the task: after the last attempt the error is thrown to the
  task, which prints the locator and the message of an \<open>Error\<close> and is over; before that
  the next attempt starts with its \<open>fetch\<close>, the pause between the two only lets time
  pass. When the loop of \<open>retry\<close> is entered with a counter above the budget, what is
  thrown to the task is the error that follows the loop.
\<close>

datatype phase = Idle | Fetching nat | Writing nat string | Finished

definition attemptFails :: "string \<Rightarrow> nat \<Rightarrow> js_error \<Rightarrow> 'n world \<Rightarrow> phase \<times> 'n world" where
  "attemptFails tsUrl i e w =
     (if i = 3 then
        (Finished,
         case e of
           Error msg \<Rightarrow> w\<lparr>console := console w @ [DownloadFailed tsUrl msg]\<rparr>
         | NonError v \<Rightarrow> w)
      else (Fetching (i + 1), w))"

fun advance :: "'n fetcher \<Rightarrow> string \<Rightarrow> nat \<Rightarrow> string \<Rightarrow> phase \<Rightarrow> 'n world \<Rightarrow> phase \<times> 'n world" where
  "advance fetch tsUrl index folder (Fetching i) w =
     (if i \<le> 3 then
        (case fetch tsUrl (net w) of
           (Inl msg, n') \<Rightarrow> attemptFails tsUrl i (Error msg) (w\<lparr>net := n'\<rparr>)
         | (Inr res, n') \<Rightarrow>
             if \<not> ok res then attemptFails tsUrl i (Error (''HTTP '' @ toString (status res))) (w\<lparr>net := n'\<rparr>)
             else (Writing i (body res), w\<lparr>net := n'\<rparr>))
      else (Finished, w\<lparr>console := console w @ [DownloadFailed tsUrl ''Unexpected retry failure'']\<rparr>))"
| "advance fetch tsUrl index folder (Writing i buffer) w =
     (case writeFile (pathJoin folder (segmentFileName index)) buffer w of
        (Inl e, w') \<Rightarrow> attemptFails tsUrl i e w'
      | (Inr u, w') \<Rightarrow> (Finished, w'\<lparr>progress := progress w' + 1\<rparr>))"
| "advance fetch tsUrl index folder Idle w = (Idle, w)"
| "advance fetch tsUrl index folder Finished w = (Finished, w)"

text \<open>
  The state of a run of \<open>runWithConcurrency\<close> on the tasks of the segments: the state of the
  scheduler, where each task stands, and the world.

  What happens in a run, one occurrence at a time. The scheduler runs its own code up to
  its next \<open>await\<close> (\<open>SchedulerRuns\<close>): when a task is left it calls the next one, which runs
  up to its first \<open>await\<close>, the \<open>fetch\<close> of its first attempt, and returns its promise,
  pending. Or the first job of the queue runs (\<open>JobRuns\<close>). Or what the task \<open>i\<close> waits for
  arrives and the task advances (\<open>TaskRuns i\<close>); when the task is over, its promise
  settles. The promise of a task never rejects, since the task catches every error.
  \<open>runStep\<close> is \<open>None\<close> when the occurrence cannot happen in the state.
\<close>

datatype occurrence = SchedulerRuns | JobRuns | TaskRuns nat

record 'n run =
  sch :: sched
  phases :: "phase list"
  wld :: "'n world"

fun runStep :: "'n fetcher \<Rightarrow> string list \<Rightarrow> string \<Rightarrow> nat \<Rightarrow> occurrence \<Rightarrow> 'n run \<Rightarrow> 'n run option" where
  "runStep fetch tsUrls folder limit SchedulerRuns c =
     (case step (length tsUrls) limit (Proceed False) (sch c) of
        None \<Rightarrow> None
      | Some s \<Rightarrow>
          Some (c\<lparr>sch := s,
                  phases := (if nxt (sch c) < length tsUrls
                             then (phases c)[nxt (sch c) := Fetching 0] else phases c)\<rparr>))"
| "runStep fetch tsUrls folder limit JobRuns c =
     (case step (length tsUrls) limit RunJob (sch c) of
        None \<Rightarrow> None
      | Some s \<Rightarrow> Some (c\<lparr>sch := s\<rparr>))"
| "runStep fetch tsUrls folder limit (TaskRuns i) c =
     (if i < length tsUrls \<and> i < length (phases c) \<and> phases c ! i \<noteq> Idle \<and> phases c ! i \<noteq> Finished then
        (case advance fetch (tsUrls ! i) i folder (phases c ! i) (wld c) of
           (ph, w) \<Rightarrow>
             if ph = Finished then
               (case step (length tsUrls) limit (Settle i) (sch c) of
                  None \<Rightarrow> None
                | Some s \<Rightarrow> Some (c\<lparr>sch := s, phases := (phases c)[i := ph], wld := w\<rparr>))
             else Some (c\<lparr>phases := (phases c)[i := ph], wld := w\<rparr>))
      else None)"

fun runOccurrences ::
  "'n fetcher \<Rightarrow> string list \<Rightarrow> string \<Rightarrow> nat \<Rightarrow> occurrence list \<Rightarrow> 'n run \<Rightarrow> 'n run option" where
  "runOccurrences fetch tsUrls folder limit [] c = Some c"
| "runOccurrences fetch tsUrls folder limit (e # es) c =
     (case runStep fetch tsUrls folder limit e c of
        None \<Rightarrow> None
      | Some c' \<Rightarrow> runOccurrences fetch tsUrls folder limit es c')"

text \<open>
  \<open>runWithConcurrency\<close> on the tasks of the segments, along a schedule: a list of
  occurrences, in the order the network and the operating system make them happen. The
  result is the world at the return of \<open>runWithConcurrency\<close>; it is \<open>None\<close> when the list is
  no schedule of the run, because one of its occurrences cannot happen or because
  \<open>runWithConcurrency\<close> has not returned at its end.
\<close>

definition startOfRun :: "string list \<Rightarrow> 'n world \<Rightarrow> 'n run" where
  "startOfRun tsUrls w = \<lparr>sch = initial, phases = replicate (length tsUrls) Idle, wld = w\<rparr>"

definition runWithConcurrency ::
  "'n fetcher \<Rightarrow> string list \<Rightarrow> string \<Rightarrow> nat \<Rightarrow> occurrence list \<Rightarrow> 'n world \<Rightarrow> 'n world option" where
  "runWithConcurrency fetch tsUrls folder limit schedule w =
     (case runOccurrences fetch tsUrls folder limit schedule (startOfRun tsUrls w) of
        None \<Rightarrow> None
      | Some c \<Rightarrow> if pc (sch c) = Done then Some (wld c) else None)"

text \<open>
  \<open>downloadM3u8\<close>, along a schedule of its tasks. The prompt of \<open>chooseM3u8\<close> is a
  parameter. \<open>resolveSegments\<close> is the beginning of \<open>downloadM3u8\<close>, up to the locators of
  the segments. \<open>fetchAndMerge\<close> is \<open>downloadM3u8\<close> up to the line that prints where the
  video is saved; its value is the temporary folder,
  \<^verbatim>\<open>path.join('ts_temp', Date.now().toString())\<close>. \<open>downloadM3u8\<close> ends with the
  \<open>cleanup\<close> of that folder, outside any \<open>try\<close>.
\<close>

definition resolveSegments ::
  "'n fetcher \<Rightarrow> (stream_info list \<Rightarrow> nat) \<Rightarrow> string \<Rightarrow> ('n, string list) action" where
  "resolveSegments fetch prompt m3u8Url =
     andThen (onNet (isMasterPlaylist fetch m3u8Url)) (\<lambda>master.
     andThen (if master then onNet (chooseM3u8 fetch prompt m3u8Url) else (\<lambda>w. (Inr m3u8Url, w))) (\<lambda>leafUrl.
     onNet (parseM3u8 fetch leafUrl)))"

definition fetchAndMerge ::
  "'n fetcher \<Rightarrow> (stream_info list \<Rightarrow> nat) \<Rightarrow> string \<Rightarrow> nat \<Rightarrow> path \<Rightarrow> occurrence list \<Rightarrow>
   'n world \<Rightarrow> ((js_error + string) \<times> 'n world) option" where
  "fetchAndMerge fetch prompt m3u8Url maxConcurrency outputPath schedule w0 =
     (case resolveSegments fetch prompt m3u8Url w0 of
        (Inl e, w) \<Rightarrow> Some (Inl e, w)
      | (Inr tsUrls, w) \<Rightarrow>
          (let tempFolder = ''ts_temp/'' @ toString (clock w) in
           case (if \<not> existsSync tempFolder w then mkdirSync tempFolder w else (Inr (), w)) of
             (Inl e, w1) \<Rightarrow> Some (Inl e, w1)
           | (Inr u, w1) \<Rightarrow>
               (case runWithConcurrency fetch tsUrls tempFolder maxConcurrency schedule (w1\<lparr>progress := 0\<rparr>) of
                  None \<Rightarrow> None
                | Some w2 \<Rightarrow>
                    Some (andThen (consoleLog MergeStarted) (\<lambda>u.
                          andThen (mergeTsFiles tempFolder outputPath) (\<lambda>u.
                          andThen (consoleLog (VideoSaved outputPath)) (\<lambda>u w.
                          (Inr tempFolder, w)))) w2))))"

definition downloadM3u8 ::
  "'n fetcher \<Rightarrow> (stream_info list \<Rightarrow> nat) \<Rightarrow> string \<Rightarrow> nat \<Rightarrow> path \<Rightarrow> occurrence list \<Rightarrow>
   'n world \<Rightarrow> ((js_error + unit) \<times> 'n world) option" where
  "downloadM3u8 fetch prompt m3u8Url maxConcurrency outputPath schedule w0 =
     (case fetchAndMerge fetch prompt m3u8Url maxConcurrency outputPath schedule w0 of
        None \<Rightarrow> None
      | Some (Inl e, w) \<Rightarrow> Some (Inl e, w)
      | Some (Inr tempFolder, w) \<Rightarrow> Some (cleanup tempFolder w))"

text \<open>
  For the statements: the message \<open>downloadTs\<close> fails with on the answer \<open>r\<close> of the
  network, if it fails on it; the bytes of the segment in \<open>r\<close>; and the lines the tasks
  print for the locators whose answer is a failure, in the order of the locators.
\<close>

definition failureOf :: "string + response \<Rightarrow> string option" where
  "failureOf r =
     (case r of
        Inl msg \<Rightarrow> Some msg
      | Inr res \<Rightarrow> if ok res then None else Some (''HTTP '' @ toString (status res)))"

definition segmentBytes :: "string + response \<Rightarrow> string" where
  "segmentBytes r = (case r of Inl msg \<Rightarrow> [] | Inr res \<Rightarrow> body res)"

fun failures :: "(string \<Rightarrow> string + response) \<Rightarrow> string list \<Rightarrow> log_entry list" where
  "failures resp [] = []"
| "failures resp (u # us) =
     (case failureOf (resp u) of
        None \<Rightarrow> failures resp us
      | Some msg \<Rightarrow> DownloadFailed u msg # failures resp us)"

text \<open>A network that answers every request for an address \<open>u\<close> with the outcome \<open>resp u\<close>.\<close>

definition stationary :: "(string \<Rightarrow> string + response) \<Rightarrow> 'n fetcher" where
  "stationary resp = (\<lambda>u n. (resp u, n))"

text \<open>The temporary folder of a run that starts in the world \<open>w\<close>.\<close>

definition workspaceOf :: "'n world \<Rightarrow> string" where
  "workspaceOf w = ''ts_temp/'' @ toString (clock w)"

text \<open>
  For examples: a network with the manifest \<open>http://h/a/i.m3u8\<close> of three segments, of
  which the first and the third are served and the second, like any other address, is
  answered with status 404; and a prompt that selects the first entry.
\<close>

definition exampleNet :: "string \<Rightarrow> string + response" where
  "exampleNet u =
     (if u = ''http://h/a/i.m3u8'' then Inr (Response True 200 ''#EXTM3U\<newline>s0.ts\<newline>s1.ts\<newline>s2.ts'')
      else if u = ''http://h/a/s0.ts'' then Inr (Response True 200 ''AA'')
      else if u = ''http://h/a/s2.ts'' then Inr (Response True 200 ''CC'')
      else Inr (Response False 404 []))"

definition firstChoice :: "stream_info list \<Rightarrow> nat" where
  "firstChoice infos = 0"

text \<open>
  A world with no directory at all, and the same world where the operating system refuses
  to remove the path \<open>p\<close>.
\<close>

definition freshWorld :: "nat \<Rightarrow> unit world" where
  "freshWorld t = worldWith t Map.empty"

definition refusingWorld :: "nat \<Rightarrow> string \<Rightarrow> string \<Rightarrow> unit world" where
  "refusingWorld t p msg = (freshWorld t)\<lparr>rm_refused := [p \<mapsto> msg]\<rparr>"

text \<open>
  For the proofs. A task is active between its call and its end. In a run, the tasks not
  yet called are those from \<open>nxt\<close> on, and the promises pending are those of the active
  tasks.
\<close>

definition active :: "phase \<Rightarrow> bool" where
  "active ph \<longleftrightarrow> ph \<noteq> Idle \<and> ph \<noteq> Finished"

definition coupled :: "nat \<Rightarrow> 'n run \<Rightarrow> bool" where
  "coupled n c \<longleftrightarrow>
     length (phases c) = n \<and>
     (\<forall>j < n. (phases c ! j = Idle \<longleftrightarrow> nxt (sch c) \<le> j) \<and>
              (active (phases c ! j) \<longleftrightarrow> j \<in> pending (sch c)))"

text \<open>
  The steps a task has left at most, and the work that is left in a run: that of the
  scheduler and that of the tasks.
\<close>

fun effort :: "phase \<Rightarrow> nat" where
  "effort Idle = 9"
| "effort (Fetching i) = (if i \<le> 3 then 2 * (4 - i) + 1 else 1)"
| "effort (Writing i buffer) = (if i \<le> 3 then 2 * (4 - i) else 2)"
| "effort Finished = 0"

definition workLeft :: "nat \<Rightarrow> nat \<Rightarrow> 'n run \<Rightarrow> nat" where
  "workLeft n limit c = work n limit (sch c) + sum_list (map effort (phases c))"

text \<open>
  What the tasks of a run with the temporary folder \<open>folder\<close> may have made of the world
  \<open>w0\<close>: they leave the clock and what the operating system refuses as they are, touch no
  directory but the folder, which they do not remove, and print nothing but lines about
  failed downloads.
\<close>

definition tasksOnly :: "string \<Rightarrow> 'n world \<Rightarrow> 'n world \<Rightarrow> bool" where
  "tasksOnly folder w0 w \<longleftrightarrow>
     clock w = clock w0 \<and> mkdir_refused w = mkdir_refused w0 \<and>
     open_refused w = open_refused w0 \<and> rm_refused w = rm_refused w0 \<and>
     (\<forall>d. d \<noteq> folder \<longrightarrow> dirs w d = dirs w0 d) \<and>
     (dirs w0 folder \<noteq> None \<longrightarrow> dirs w folder \<noteq> None) \<and>
     (\<exists>logs. console w = console w0 @ logs \<and> (\<forall>l \<in> set logs. \<exists>u msg. l = DownloadFailed u msg))"

text \<open>
  What the calls to \<open>fs\<close> of \<open>mergeTsFiles\<close> may have made of a world: they print
  nothing, leave what the removal is refused for as it is, and remove no directory.
\<close>

definition fsOnly :: "'n world \<Rightarrow> 'n world \<Rightarrow> bool" where
  "fsOnly w w' \<longleftrightarrow>
     console w' = console w \<and> rm_refused w' = rm_refused w \<and>
     (\<forall>d. dirs w d \<noteq> None \<longrightarrow> dirs w' d \<noteq> None)"

text \<open>
  A run on a network that answers every request for the locator \<open>u\<close> of a segment with
  \<open>resp u\<close>, in a folder that was empty at the start and in which no file is refused. The
  tasks that are over have stored their segment, when the locator is served, or have
  failed. A task whose locator is served is at its first attempt until it is over, and
  then its file holds the bytes of the segment; the folder holds no other entry; and the
  tasks that have failed have printed their line.
\<close>

definition storedBy :: "(string \<Rightarrow> string + response) \<Rightarrow> string list \<Rightarrow> 'n run \<Rightarrow> nat set" where
  "storedBy resp us c = {j. j < length us \<and> phases c ! j = Finished \<and> failureOf (resp (us ! j)) = None}"

definition failedBy :: "(string \<Rightarrow> string + response) \<Rightarrow> string list \<Rightarrow> 'n run \<Rightarrow> nat set" where
  "failedBy resp us c = {j. j < length us \<and> phases c ! j = Finished \<and> failureOf (resp (us ! j)) \<noteq> None}"

definition failureLine :: "(string \<Rightarrow> string + response) \<Rightarrow> string \<Rightarrow> log_entry" where
  "failureLine resp u = DownloadFailed u (case failureOf (resp u) of None \<Rightarrow> [] | Some msg \<Rightarrow> msg)"

definition tidyPhase :: "(string \<Rightarrow> string + response) \<Rightarrow> string \<Rightarrow> phase \<Rightarrow> bool" where
  "tidyPhase resp u ph \<longleftrightarrow>
     (case ph of
        Idle \<Rightarrow> True
      | Fetching i \<Rightarrow> i \<le> 3 \<and> (failureOf (resp u) = None \<longrightarrow> i = 0)
      | Writing i buffer \<Rightarrow> i = 0 \<and> failureOf (resp u) = None \<and> buffer = segmentBytes (resp u)
      | Finished \<Rightarrow> True)"

definition tidyFiles :: "(string \<Rightarrow> string + response) \<Rightarrow> string list \<Rightarrow> string \<Rightarrow> 'n run \<Rightarrow> bool" where
  "tidyFiles resp us folder c \<longleftrightarrow>
     (\<exists>es. dirs (wld c) folder = Some es \<and> distinct (map fst es) \<and>
        (\<forall>j \<in> storedBy resp us c. map_of es (segmentFileName j) = Some (File (segmentBytes (resp (us ! j))))) \<and>
        fst ` set es \<subseteq> segmentFileName ` storedBy resp us c)"

definition tidyLines :: "(string \<Rightarrow> string + response) \<Rightarrow> string list \<Rightarrow> 'n world \<Rightarrow> 'n run \<Rightarrow> bool" where
  "tidyLines resp us w0 c \<longleftrightarrow>
     (\<exists>logs. console (wld c) = console w0 @ logs \<and>
        mset logs = image_mset (\<lambda>j. failureLine resp (us ! j)) (mset_set (failedBy resp us c)))"

definition tidy :: "(string \<Rightarrow> string + response) \<Rightarrow> string list \<Rightarrow> string \<Rightarrow> 'n world \<Rightarrow> 'n run \<Rightarrow> bool" where
  "tidy resp us folder w0 c \<longleftrightarrow>
     (\<forall>j < length us. tidyPhase resp (us ! j) (phases c ! j)) \<and>
     tidyFiles resp us folder c \<and> tidyLines resp us w0 c"

text \<open>
  A schedule of the three tasks of the example with limit 2, in which the tasks overlap:
  the second task is over first, after its four attempts, the third task is called, and
  the first task is over before the third.
\<close>

definition exampleSchedule :: "occurrence list" where
  "exampleSchedule =
     [SchedulerRuns, SchedulerRuns, TaskRuns 1, TaskRuns 0, TaskRuns 1, TaskRuns 1, TaskRuns 1,
      JobRuns, JobRuns, JobRuns, SchedulerRuns, TaskRuns 2, TaskRuns 0,
      JobRuns, JobRuns, JobRuns, JobRuns, SchedulerRuns, TaskRuns 2,
      JobRuns, JobRuns, JobRuns, JobRuns]"

section \<open>Properties of the string functions\<close>

lemma splitStr_ne: "splitStr c s \<noteq> []"
  by (induction s) (auto split: list.splits)

lemma joinStr_splitStr: "joinStr [c] (splitStr c s) = s"
proof (induction s)
  case Nil
  show ?case by simp
next
  case (Cons x xs)
  obtain l ls where e: "splitStr c xs = l # ls"
    using splitStr_ne[of c xs] by (cases "splitStr c xs") auto
  show ?case using Cons e by (cases ls) auto
qed

lemma splitStr_no_sep: "l \<in> set (splitStr c s) \<Longrightarrow> c \<notin> set l"
  by (induction s arbitrary: l) (auto split: list.splits if_splits)

lemma splitStr_single: "c \<notin> set f \<Longrightarrow> splitStr c f = [f]"
  by (induction f) auto

lemma splitStr_append: "c \<notin> set f \<Longrightarrow> splitStr c (b @ c # f) = splitStr c b @ [f]"
proof (induction b)
  case Nil
  then show ?case by (simp add: splitStr_single)
next
  case (Cons x xs)
  obtain l ls where e: "splitStr c xs = l # ls"
    using splitStr_ne[of c xs] by (cases "splitStr c xs") auto
  show ?case using Cons e by simp
qed

text \<open>The base address is the manifest address up to its last slash.\<close>

lemma baseUrlOf_split: "CHR ''/'' \<notin> set f \<Longrightarrow> baseUrlOf (b @ CHR ''/'' # f) = b"
  using joinStr_splitStr[of "CHR ''/''" b] by (simp add: baseUrlOf_def splitStr_append)

section \<open>Properties of the manifest resolver\<close>

text \<open>The loop of \<open>chooseM3u8\<close> pushes one entry per directive line, in line order.\<close>

lemma streamInfosFrom_eq:
  "streamInfosFrom b ls i acc =
     acc @ map (streamInfoAt b ls)
             (filter (\<lambda>j. startsWith (ls ! j) ''#EXT-X-STREAM-INF'') [i..<length ls])"
proof (induction b ls i acc rule: streamInfosFrom.induct)
  case (1 b ls i acc)
  show ?case
  proof (cases "i < length ls")
    case True
    then have u: "[i..<length ls] = i # [i + 1..<length ls]"
      by (simp add: upt_conv_Cons)
    show ?thesis
      using True 1 by (subst streamInfosFrom.simps) (simp add: u)
  next
    case False
    then show ?thesis by (subst streamInfosFrom.simps) simp
  qed
qed

lemma streamInfosOf_eq:
  "streamInfosOf masterUrl text =
     map (streamInfoAt (baseUrlOf masterUrl) (map trim (splitStr CHR 0x0A text)))
       (filter (\<lambda>j. startsWith (map trim (splitStr CHR 0x0A text) ! j) ''#EXT-X-STREAM-INF'')
          [0..<length (map trim (splitStr CHR 0x0A text))])"
  unfolding streamInfosOf_def by (simp add: streamInfosFrom_eq)

lemma url_streamInfoAt:
  "i + 1 < length ls \<Longrightarrow>
   url (streamInfoAt b ls i) =
     (if startsWith (ls ! (i + 1)) ''http'' then ls ! (i + 1) else b @ ''/'' @ ls ! (i + 1))"
  by (simp add: streamInfoAt_def lineAt_def)

lemma prefixed_neq: "b @ CHR ''/'' # l \<noteq> l"
proof
  assume "b @ CHR ''/'' # l = l"
  then have "length (b @ CHR ''/'' # l) = length l" by simp
  then show False by simp
qed

text \<open>
  Claim C5. For a manifest that is fetched successfully, \<open>parseM3u8\<close> returns one locator
  for each line that, once trimmed, is neither empty nor starts with \<open>#\<close>: as many
  locators as there are such lines, in the order of the lines. A line that starts with
  \<open>http\<close> is its own locator, any other line is prefixed with the base address and a
  slash; the base address of a manifest address \<open>b/f\<close>, where \<open>f\<close> has no slash, is \<open>b\<close>.
\<close>

theorem parseM3u8_segment_locators:
  assumes "fetch m3u8Url n = (Inr res, n')" and "ok res"
  shows "let lines = map trim (splitStr CHR 0x0A (body res));
             kept = filter (\<lambda>l. l \<noteq> [] \<and> \<not> startsWith l ''#'') lines in
         \<exists>locs. fst (parseM3u8 fetch m3u8Url n) = Inr locs
           \<and> length locs = card {i. i < length lines \<and> lines ! i \<noteq> [] \<and> \<not> startsWith (lines ! i) ''#''}
           \<and> locs = map (\<lambda>l. if startsWith l ''http'' then l else baseUrlOf m3u8Url @ ''/'' @ l) kept
           \<and> (\<forall>b f. m3u8Url = b @ ''/'' @ f \<and> CHR ''/'' \<notin> set f \<longrightarrow> baseUrlOf m3u8Url = b)"
  using assms
  by (simp add: parseM3u8_def parseText_def Let_def length_filter_conv_card baseUrlOf_split)

text \<open>
  The manifest \<open>http://h/a/b/index.m3u8\<close> with a comment, the relative locator \<open>seg.ts\<close>,
  an empty line and an absolute locator surrounded by spaces.
\<close>

theorem parseM3u8_segment_locators_witness:
  "ok (Response True 200 ''#EXTM3U\<newline>seg.ts\<newline>\<newline>  http://c/s2.ts '') \<and>
   fst (parseM3u8 (constFetch (Response True 200 ''#EXTM3U\<newline>seg.ts\<newline>\<newline>  http://c/s2.ts ''))
      ''http://h/a/b/index.m3u8'' ()) = Inr [''http://h/a/b/seg.ts'', ''http://c/s2.ts'']"
proof -
  let ?t = "''#EXTM3U\<newline>seg.ts\<newline>\<newline>  http://c/s2.ts ''"
  have h1: "constFetch (Response True 200 ?t) ''http://h/a/b/index.m3u8'' () = (Inr (Response True 200 ?t), ())"
    by (simp add: constFetch_def)
  have h2: "ok (Response True 200 ?t)"
    by simp
  have b: "baseUrlOf ''http://h/a/b/index.m3u8'' = ''http://h/a/b''"
    by (simp add: baseUrlOf_def)
  show ?thesis
    using h1 h2 parseM3u8_segment_locators[of "constFetch (Response True 200 ?t)"
        "''http://h/a/b/index.m3u8''" "()" "Response True 200 ?t" "()" ]
    by (simp add: Let_def trim_def isWhiteSpace_def startsWith_def b)
qed

text \<open>
  Claim C10. In \<open>parseM3u8\<close> and in \<open>chooseM3u8\<close> alike, a locator line is taken as it is
  exactly when it starts with the four characters \<open>http\<close>; any other line becomes the
  base address, a slash and the line, which is never the line itself. For \<open>chooseM3u8\<close>
  the locator line of a directive is the line after it.
\<close>

theorem locator_verbatim_iff_http:
  "(let kept = filter (\<lambda>l. l \<noteq> [] \<and> \<not> startsWith l ''#'') (map trim (splitStr CHR 0x0A text));
        locs = parseText m3u8Url text in
    length locs = length kept \<and>
    (\<forall>k<length kept.
       (startsWith (kept ! k) ''http'' \<longrightarrow> locs ! k = kept ! k) \<and>
       (\<not> startsWith (kept ! k) ''http'' \<longrightarrow>
          locs ! k = baseUrlOf m3u8Url @ ''/'' @ kept ! k \<and> locs ! k \<noteq> kept ! k))) \<and>
   (let lines = map trim (splitStr CHR 0x0A text);
        ds = filter (\<lambda>j. startsWith (lines ! j) ''#EXT-X-STREAM-INF'') [0..<length lines];
        infos = streamInfosOf m3u8Url text in
    length infos = length ds \<and>
    (\<forall>k<length ds. ds ! k + 1 < length lines \<longrightarrow>
       (startsWith (lines ! (ds ! k + 1)) ''http'' \<longrightarrow> url (infos ! k) = lines ! (ds ! k + 1)) \<and>
       (\<not> startsWith (lines ! (ds ! k + 1)) ''http'' \<longrightarrow>
          url (infos ! k) = baseUrlOf m3u8Url @ ''/'' @ lines ! (ds ! k + 1) \<and>
          url (infos ! k) \<noteq> lines ! (ds ! k + 1))))"
  unfolding Let_def streamInfosOf_eq
  by (simp add: parseText_def Let_def url_streamInfoAt prefixed_neq)

text \<open>
  A line with the scheme \<open>ftp\<close> is prefixed with the base address; the line
  \<open>httpfoo.m3u8\<close>, which is no address at all, is taken as it is.
\<close>

theorem locator_verbatim_iff_http_witness:
  "parseText ''http://h/a/i.m3u8''
      ''#EXT-X-STREAM-INF:BANDWIDTH=1\<newline>ftp://x/v.m3u8\<newline>#EXT-X-STREAM-INF:BANDWIDTH=2\<newline>httpfoo.m3u8'' ! 0
     = ''http://h/a/ftp://x/v.m3u8'' \<and>
   parseText ''http://h/a/i.m3u8''
      ''#EXT-X-STREAM-INF:BANDWIDTH=1\<newline>ftp://x/v.m3u8\<newline>#EXT-X-STREAM-INF:BANDWIDTH=2\<newline>httpfoo.m3u8'' ! 1
     = ''httpfoo.m3u8'' \<and>
   url (streamInfosOf ''http://h/a/i.m3u8''
      ''#EXT-X-STREAM-INF:BANDWIDTH=1\<newline>ftp://x/v.m3u8\<newline>#EXT-X-STREAM-INF:BANDWIDTH=2\<newline>httpfoo.m3u8'' ! 0)
     = ''http://h/a/ftp://x/v.m3u8'' \<and>
   url (streamInfosOf ''http://h/a/i.m3u8''
      ''#EXT-X-STREAM-INF:BANDWIDTH=1\<newline>ftp://x/v.m3u8\<newline>#EXT-X-STREAM-INF:BANDWIDTH=2\<newline>httpfoo.m3u8'' ! 1)
     = ''httpfoo.m3u8''"
proof -
  let ?U = "''http://h/a/i.m3u8''"
  let ?T = "''#EXT-X-STREAM-INF:BANDWIDTH=1\<newline>ftp://x/v.m3u8\<newline>#EXT-X-STREAM-INF:BANDWIDTH=2\<newline>httpfoo.m3u8''"
  let ?L = "[''#EXT-X-STREAM-INF:BANDWIDTH=1'', ''ftp://x/v.m3u8'', ''#EXT-X-STREAM-INF:BANDWIDTH=2'', ''httpfoo.m3u8'']"
  have b: "baseUrlOf ?U = ''http://h/a''"
    by (simp add: baseUrlOf_def)
  have l: "map trim (splitStr CHR 0x0A ?T) = ?L"
    by (simp add: trim_def isWhiteSpace_def)
  have kept: "filter (\<lambda>l. l \<noteq> [] \<and> \<not> startsWith l ''#'') ?L = [''ftp://x/v.m3u8'', ''httpfoo.m3u8'']"
    by (simp add: startsWith_def)
  have ds: "filter (\<lambda>j. startsWith (?L ! j) ''#EXT-X-STREAM-INF'') [0..<length ?L] = [0, 2]"
    by (simp add: startsWith_def upt_conv_Cons)
  note t = locator_verbatim_iff_http[of ?T ?U, unfolded Let_def l kept ds b]
  from t show ?thesis
    by (simp add: startsWith_def numeral_2_eq_2 All_less_Suc)
qed

text \<open>
  Claim C4, as amended. \<open>chooseM3u8\<close> pairs each directive line (a trimmed line that
  starts with \<open>#EXT-X-STREAM-INF\<close>) with the line right after it, whatever that line
  holds: the \<open>k\<close>-th directive that has a line after it gives the \<open>k\<close>-th entry, whose
  locator is that line if it starts with \<open>http\<close>, and the base address, a slash and that
  line otherwise. So a directive followed by an empty line gets the base address and a
  slash, not the next non-empty line.
\<close>

theorem chooseM3u8_pairs_next_line:
  "let lines = map trim (splitStr CHR 0x0A text);
       ds = filter (\<lambda>j. startsWith (lines ! j) ''#EXT-X-STREAM-INF'') [0..<length lines];
       infos = streamInfosOf masterUrl text in
   \<forall>k<length ds. ds ! k + 1 < length lines \<longrightarrow>
     k < length infos \<and>
     url (infos ! k) =
       (if startsWith (lines ! (ds ! k + 1)) ''http'' then lines ! (ds ! k + 1)
        else baseUrlOf masterUrl @ ''/'' @ lines ! (ds ! k + 1)) \<and>
     (lines ! (ds ! k + 1) = [] \<longrightarrow> url (infos ! k) = baseUrlOf masterUrl @ ''/'')"
  unfolding Let_def streamInfosOf_eq
  by (simp add: url_streamInfoAt startsWith_def)

text \<open>Two directives, the first followed by an empty line.\<close>

theorem chooseM3u8_pairs_next_line_witness:
  "url (streamInfosOf ''http://h/a/m.m3u8''
     ''#EXT-X-STREAM-INF:BANDWIDTH=1\<newline>\<newline>v.m3u8\<newline>#EXT-X-STREAM-INF:BANDWIDTH=2\<newline>w.m3u8'' ! 0) = ''http://h/a/'' \<and>
   url (streamInfosOf ''http://h/a/m.m3u8''
     ''#EXT-X-STREAM-INF:BANDWIDTH=1\<newline>\<newline>v.m3u8\<newline>#EXT-X-STREAM-INF:BANDWIDTH=2\<newline>w.m3u8'' ! 1) = ''http://h/a/w.m3u8''"
proof -
  let ?U = "''http://h/a/m.m3u8''"
  let ?T = "''#EXT-X-STREAM-INF:BANDWIDTH=1\<newline>\<newline>v.m3u8\<newline>#EXT-X-STREAM-INF:BANDWIDTH=2\<newline>w.m3u8''"
  let ?L = "[''#EXT-X-STREAM-INF:BANDWIDTH=1'', [], ''v.m3u8'', ''#EXT-X-STREAM-INF:BANDWIDTH=2'', ''w.m3u8'']"
  have b: "baseUrlOf ?U = ''http://h/a''"
    by (simp add: baseUrlOf_def)
  have l: "map trim (splitStr CHR 0x0A ?T) = ?L"
    by (simp add: trim_def isWhiteSpace_def)
  have ds: "filter (\<lambda>j. startsWith (?L ! j) ''#EXT-X-STREAM-INF'') [0..<length ?L] = [0, 3]"
    by (simp add: startsWith_def upt_conv_Cons)
  note t = chooseM3u8_pairs_next_line[of ?T ?U, unfolded Let_def l ds b]
  from t show ?thesis
    by (simp add: startsWith_def numeral_2_eq_2 All_less_Suc)
qed

text \<open>
  The claim as stated fails: with a directive followed by an empty line and then
  \<open>v.m3u8\<close>, and a second directive on the last line, the claim promises the single
  locator \<open>http://h/a/v.m3u8\<close>. The loop yields two entries, neither with that locator.
\<close>

theorem chooseM3u8_next_nonblank_counterexample:
  "map url (streamInfosOf ''http://h/a/m.m3u8''
     ''#EXT-X-STREAM-INF:BANDWIDTH=1\<newline>\<newline>v.m3u8\<newline>#EXT-X-STREAM-INF:BANDWIDTH=2'')
     = [''http://h/a/'', ''http://h/a/undefined''] \<and>
   map url (streamInfosOf ''http://h/a/m.m3u8''
     ''#EXT-X-STREAM-INF:BANDWIDTH=1\<newline>\<newline>v.m3u8\<newline>#EXT-X-STREAM-INF:BANDWIDTH=2'')
     \<noteq> [''http://h/a/v.m3u8'']"
proof -
  have b: "baseUrlOf ''http://h/a/m.m3u8'' = ''http://h/a''"
    by (simp add: baseUrlOf_def)
  show ?thesis
    unfolding streamInfosOf_eq b
    by (simp add: trim_def isWhiteSpace_def startsWith_def upt_conv_Cons streamInfoAt_def lineAt_def)
qed

text \<open>
  Claim C9. Once the manifest is fetched, \<open>chooseM3u8\<close> fails with the error
  \<open>No media streams found in master playlist\<close> exactly when the list of parsed entries
  is empty, which is when no trimmed line starts with the directive. When the list is
  not empty and the prompt selects one of its entries, that entry's locator is returned.
\<close>

theorem chooseM3u8_no_variants_iff:
  assumes "fetch masterUrl n = (Inr res, n')" and "ok res"
  shows "let infos = streamInfosOf masterUrl (body res);
             r = fst (chooseM3u8 fetch prompt masterUrl n) in
         (r = Inl (Error ''No media streams found in master playlist'') \<longleftrightarrow> infos = []) \<and>
         (infos \<noteq> [] \<and> prompt infos < length infos \<longrightarrow> r = Inr (url (infos ! prompt infos))) \<and>
         (infos = [] \<longleftrightarrow>
            (\<forall>l \<in> set (map trim (splitStr CHR 0x0A (body res))). \<not> startsWith l ''#EXT-X-STREAM-INF''))"
proof -
  have e: "(streamInfosOf masterUrl (body res) = []) \<longleftrightarrow>
      (\<forall>l \<in> set (map trim (splitStr CHR 0x0A (body res))). \<not> startsWith l ''#EXT-X-STREAM-INF'')"
    unfolding streamInfosOf_eq
    by (auto simp: filter_empty_conv in_set_conv_nth) (metis nth_mem)
  show ?thesis
    using assms e by (simp add: chooseM3u8_def Let_def)
qed


text \<open>
  A manifest with one directive, and a manifest that only mentions the directive inside
  a comment: \<open>isMasterPlaylist\<close> accepts the second, and \<open>chooseM3u8\<close> finds no entry.
\<close>

theorem chooseM3u8_no_variants_iff_witness:
  "fst (chooseM3u8 (constFetch (Response True 200 ''#EXT-X-STREAM-INF:BANDWIDTH=1\<newline>v.m3u8''))
         (\<lambda>infos. 0) ''http://h/a/m.m3u8'' ()) = Inr ''http://h/a/v.m3u8'' \<and>
   fst (chooseM3u8 (constFetch (Response True 200 ''# no #EXT-X-STREAM-INF here\<newline>v.m3u8''))
         (\<lambda>infos. 0) ''http://h/a/m.m3u8'' ()) = Inl (Error ''No media streams found in master playlist'')"
proof -
  let ?U = "''http://h/a/m.m3u8''"
  let ?r1 = "Response True 200 ''#EXT-X-STREAM-INF:BANDWIDTH=1\<newline>v.m3u8''"
  let ?r2 = "Response True 200 ''# no #EXT-X-STREAM-INF here\<newline>v.m3u8''"
  have b: "baseUrlOf ?U = ''http://h/a''"
    by (simp add: baseUrlOf_def)
  have i1: "map url (streamInfosOf ?U (body ?r1)) = [''http://h/a/v.m3u8'']"
    unfolding streamInfosOf_eq b
    by (simp add: trim_def isWhiteSpace_def startsWith_def upt_conv_Cons streamInfoAt_def lineAt_def)
  have i2: "streamInfosOf ?U (body ?r2) = []"
    unfolding streamInfosOf_eq b
    by (simp add: trim_def isWhiteSpace_def startsWith_def upt_conv_Cons)
  have h1: "constFetch ?r1 ?U () = (Inr ?r1, ())" "ok ?r1"
    by (simp_all add: constFetch_def)
  have h2: "constFetch ?r2 ?U () = (Inr ?r2, ())" "ok ?r2"
    by (simp_all add: constFetch_def)
  note t1 = chooseM3u8_no_variants_iff[of "constFetch ?r1" ?U "()" ?r1 "()" "\<lambda>infos. 0", unfolded Let_def]
  note t2 = chooseM3u8_no_variants_iff[of "constFetch ?r2" ?U "()" ?r2 "()" "\<lambda>infos. 0", unfolded Let_def]
  have "streamInfosOf ?U (body ?r1) \<noteq> []" using i1 by auto
  with t1 h1 have "fst (chooseM3u8 (constFetch ?r1) (\<lambda>infos. 0) ?U ()) = Inr (url (streamInfosOf ?U (body ?r1) ! 0))"
    by blast
  moreover have "url (streamInfosOf ?U (body ?r1) ! 0) = ''http://h/a/v.m3u8''"
    using i1 by (cases "streamInfosOf ?U (body ?r1)") auto
  moreover from t2 h2 i2 have "fst (chooseM3u8 (constFetch ?r2) (\<lambda>infos. 0) ?U ()) = Inl (Error ''No media streams found in master playlist'')"
    by blast
  ultimately show ?thesis by simp
qed

section \<open>Properties of the retry wrapper\<close>

lemma worldAfter_Suc: "worldAfter fn w (Suc k) = worldAfter fn (snd (fn w)) k"
  by (simp only: worldAfter_def funpow_Suc_right o_apply)

lemma nthOutcome_Suc: "nthOutcome fn w (Suc k) = nthOutcome fn (snd (fn w)) k"
  by (simp add: nthOutcome_def worldAfter_Suc)

lemma nthOutcome_0: "nthOutcome fn w 0 = fst (fn w)"
  by (simp add: nthOutcome_def worldAfter_def)

lemma retryFrom_success:
  "k \<le> nat (r - i) \<Longrightarrow> i \<le> r \<Longrightarrow> \<forall>j<k. isl (nthOutcome fn w j) \<Longrightarrow> nthOutcome fn w k = Inr v \<Longrightarrow>
   retryFrom (counted fn) r i (w, c) = (Inr v, (worldAfter fn w (k + 1), c + k + 1))"
proof (induction k arbitrary: i w c)
  case 0
  then obtain w' where "fn w = (Inr v, w')" by (cases "fn w") (simp add: nthOutcome_0)
  then show ?case
    using 0 by (subst retryFrom.simps) (simp add: counted_def worldAfter_def)
next
  case (Suc k)
  from Suc.prems have lt: "i < r" by simp
  from Suc.prems(3) have "isl (nthOutcome fn w 0)" by blast
  then obtain e w' where e: "fn w = (Inl e, w')" by (cases "fn w") (auto simp: nthOutcome_0 isl_def)
  have step: "retryFrom (counted fn) r i (w, c) = retryFrom (counted fn) r (i + 1) (snd (fn w), c + 1)"
    using lt e by (subst retryFrom.simps) (simp add: counted_def)
  have "retryFrom (counted fn) r (i + 1) (snd (fn w), c + 1)
        = (Inr v, (worldAfter fn (snd (fn w)) (k + 1), (c + 1) + k + 1))"
  proof (rule Suc.IH)
    show "k \<le> nat (r - (i + 1))" using Suc.prems by simp
    show "i + 1 \<le> r" using lt by simp
    show "\<forall>j<k. isl (nthOutcome fn (snd (fn w)) j)"
      using Suc.prems(3) by (auto simp: nthOutcome_Suc[symmetric])
    show "nthOutcome fn (snd (fn w)) k = Inr v"
      using Suc.prems(4) by (simp add: nthOutcome_Suc)
  qed
  then show ?case using step by (simp add: worldAfter_Suc)
qed

lemma retryFrom_exhausted:
  "m = nat (r - i) \<Longrightarrow> i \<le> r \<Longrightarrow> \<forall>j\<le>m. isl (nthOutcome fn w j) \<Longrightarrow>
   retryFrom (counted fn) r i (w, c) = (nthOutcome fn w m, (worldAfter fn w (m + 1), c + m + 1))"
proof (induction m arbitrary: i w c)
  case 0
  then have i: "i = r" by simp
  from 0 have "isl (nthOutcome fn w 0)" by blast
  then obtain e w' where e: "fn w = (Inl e, w')" by (cases "fn w") (auto simp: nthOutcome_0 isl_def)
  show ?case
    using i e by (subst retryFrom.simps) (simp add: counted_def worldAfter_def nthOutcome_0)
next
  case (Suc m)
  from Suc.prems have lt: "i < r" by simp
  from Suc.prems(3) have "isl (nthOutcome fn w 0)" by blast
  then obtain e w' where e: "fn w = (Inl e, w')" by (cases "fn w") (auto simp: nthOutcome_0 isl_def)
  have step: "retryFrom (counted fn) r i (w, c) = retryFrom (counted fn) r (i + 1) (snd (fn w), c + 1)"
    using lt e by (subst retryFrom.simps) (simp add: counted_def)
  have "retryFrom (counted fn) r (i + 1) (snd (fn w), c + 1)
        = (nthOutcome fn (snd (fn w)) m, (worldAfter fn (snd (fn w)) (m + 1), (c + 1) + m + 1))"
  proof (rule Suc.IH)
    show "m = nat (r - (i + 1))" using Suc.prems by simp
    show "i + 1 \<le> r" using lt by simp
    show "\<forall>j\<le>m. isl (nthOutcome fn (snd (fn w)) j)"
      using Suc.prems(3) by (auto simp: nthOutcome_Suc[symmetric])
  qed
  then show ?case using step by (simp add: worldAfter_Suc nthOutcome_Suc)
qed

text \<open>With a negative budget the loop body never runs and the operation is not invoked.\<close>

lemma retry_negative: "r < 0 \<Longrightarrow> retry fn r w = (Inl (Error ''Unexpected retry failure''), w)"
  unfolding retry_def by (subst retryFrom.simps) simp

text \<open>
  Claim C2. For a retry budget \<open>r\<close>, a number of retries and so not negative: if the
  operation first succeeds at its invocation \<open>k + 1\<close> with \<open>k \<le> r\<close>, then \<open>retry\<close> returns
  that value after exactly \<open>k + 1\<close> invocations; if the first \<open>r + 1\<close> invocations all fail,
  then \<open>retry\<close> invokes the operation exactly \<open>r + 1\<close> times and throws the error of the
  last invocation as it is. In every case the operation is invoked at least once and at
  most \<open>r + 1\<close> times.
\<close>

theorem retry_invocations:
  assumes "0 \<le> r"
  shows "(\<forall>k v. k \<le> nat r \<and> (\<forall>j<k. isl (nthOutcome fn w j)) \<and> nthOutcome fn w k = Inr v \<longrightarrow>
            retry (counted fn) r (w, 0) = (Inr v, (worldAfter fn w (k + 1), k + 1))) \<and>
         ((\<forall>j\<le>nat r. isl (nthOutcome fn w j)) \<longrightarrow>
            retry (counted fn) r (w, 0) = (nthOutcome fn w (nat r), (worldAfter fn w (nat r + 1), nat r + 1))) \<and>
         1 \<le> snd (snd (retry (counted fn) r (w, 0))) \<and>
         snd (snd (retry (counted fn) r (w, 0))) \<le> nat r + 1"
proof -
  have s: "retry (counted fn) r (w, 0) = (Inr v, (worldAfter fn w (k + 1), k + 1))"
    if "k \<le> nat r" "\<forall>j<k. isl (nthOutcome fn w j)" "nthOutcome fn w k = Inr v" for k v
    using retryFrom_success[of k r 0 fn w v 0] that assms by (simp add: retry_def)
  have f: "retry (counted fn) r (w, 0) = (nthOutcome fn w (nat r), (worldAfter fn w (nat r + 1), nat r + 1))"
    if "\<forall>j\<le>nat r. isl (nthOutcome fn w j)"
    using retryFrom_exhausted[of "nat r" r 0 fn w 0] that assms by (simp add: retry_def)
  have b: "1 \<le> snd (snd (retry (counted fn) r (w, 0))) \<and> snd (snd (retry (counted fn) r (w, 0))) \<le> nat r + 1"
  proof (cases "\<forall>j\<le>nat r. isl (nthOutcome fn w j)")
    case True
    then show ?thesis using f by simp
  next
    case False
    then have ex: "\<exists>j. \<not> isl (nthOutcome fn w j)" by blast
    define k where "k = (LEAST j. \<not> isl (nthOutcome fn w j))"
    have k1: "\<not> isl (nthOutcome fn w k)" unfolding k_def using ex by (rule LeastI_ex)
    have k2: "\<forall>j<k. isl (nthOutcome fn w j)" unfolding k_def using not_less_Least by blast
    from False obtain j where "j \<le> nat r" "\<not> isl (nthOutcome fn w j)" by blast
    then have k3: "k \<le> nat r" unfolding k_def by (meson Least_le order_trans)
    from k1 obtain v where "nthOutcome fn w k = Inr v" by (cases "nthOutcome fn w k") auto
    from s[OF k3 k2 this] k3 show ?thesis by simp
  qed
  from s f b show ?thesis by blast
qed

text \<open>
  With \<open>retries = 3\<close>: an operation that fails twice and then succeeds is invoked three
  times and its value returned; an operation that always fails is invoked four times and
  the error of the fourth invocation, whose message is \<open>3\<close>, is thrown.
\<close>

theorem retry_invocations_witness:
  "(0::int) \<le> 3 \<and>
   retry (counted (failsUntil 2 ''ok'')) 3 (0, 0) = (Inr ''ok'', (3, 3)) \<and>
   retry (counted (alwaysFails :: (nat, string) operation)) 3 (0, 0) = (Inl (Error ''3''), (4, 4))"
proof -
  have r: "(0::int) \<le> 3" by simp
  have w: "worldAfter (failsUntil 2 v) 0 k = k" "worldAfter alwaysFails 0 k = k" for k and v :: string
    by (induction k) (simp_all add: worldAfter_def failsUntil_def alwaysFails_def)
  have o1: "nthOutcome (failsUntil 2 ''ok'') 0 k = (if k < 2 then Inl (Error (toString k)) else Inr ''ok'')" for k
    unfolding nthOutcome_def w by (simp add: failsUntil_def)
  have o2: "nthOutcome (alwaysFails :: (nat, string) operation) 0 k = Inl (Error (toString k))" for k
    unfolding nthOutcome_def w by (simp add: alwaysFails_def)
  note t1 = retry_invocations[OF r, of "failsUntil 2 ''ok''" 0]
  note t2 = retry_invocations[OF r, of "alwaysFails :: (nat, string) operation" 0]
  from t1 have "2 \<le> nat 3 \<and> (\<forall>j<2. isl (nthOutcome (failsUntil 2 ''ok'') 0 j)) \<and>
      nthOutcome (failsUntil 2 ''ok'') 0 2 = Inr ''ok'' \<longrightarrow>
      retry (counted (failsUntil 2 ''ok'')) 3 (0, 0) = (Inr ''ok'', (worldAfter (failsUntil 2 ''ok'') 0 (2 + 1), 2 + 1))"
    by blast
  then have a: "retry (counted (failsUntil 2 ''ok'')) 3 (0, 0) = (Inr ''ok'', (3, 3))"
    by (simp add: o1 w)
  from t2 have "retry (counted (alwaysFails :: (nat, string) operation)) 3 (0, 0) =
      (nthOutcome (alwaysFails :: (nat, string) operation) 0 (nat 3), (worldAfter (alwaysFails :: (nat, string) operation) 0 (nat 3 + 1), nat 3 + 1))"
    by (simp add: o2)
  then have b: "retry (counted (alwaysFails :: (nat, string) operation)) 3 (0, 0) = (Inl (Error ''3''), (4, 4))"
    by (simp add: o2 w toString.simps digit_char_def)
  from r a b show ?thesis by simp
qed

section \<open>Properties of the segment file names\<close>

lemma of_char_digit_char: "d < 10 \<Longrightarrow> of_char (digit_char d) = 48 + d"
proof -
  assume "d < 10"
  then have "d \<in> {0, 1, 2, 3, 4, 5, 6, 7, 8, 9}" by auto
  then show ?thesis by (auto simp: digit_char_def)
qed

lemma digit_char_less: "a < 10 \<Longrightarrow> b < 10 \<Longrightarrow> (digit_char a < digit_char b) = (a < b)"
  by (simp add: less_char_def of_char_digit_char)

lemma digit_char_eq: "a < 10 \<Longrightarrow> b < 10 \<Longrightarrow> (digit_char a = digit_char b) = (a = b)"
  by (metis of_char_digit_char add_left_cancel)

lemma divmod_less: "((a::nat) < b) = (a div 10 < b div 10 \<or> a div 10 = b div 10 \<and> a mod 10 < b mod 10)"
proof -
  define qa ra qb rb where "qa = a div 10" and "ra = a mod 10" and "qb = b div 10" and "rb = b mod 10"
  have "a = 10 * qa + ra" "b = 10 * qb + rb" "ra < 10" "rb < 10"
    by (simp_all add: qa_def ra_def qb_def rb_def)
  then have "(a < b) = (qa < qb \<or> qa = qb \<and> ra < rb)" by arith
  then show ?thesis by (simp add: qa_def ra_def qb_def rb_def)
qed

lemma divmod_eq: "((a::nat) = b) = (a div 10 = b div 10 \<and> a mod 10 = b mod 10)"
  by (metis div_mult_mod_eq)

lemma snoc_less_snoc:
  "length xs = length ys \<Longrightarrow> (xs @ [a] < ys @ [b]) = (xs < ys \<or> xs = ys \<and> a < b)"
  for xs ys :: "'a::linorder list"
  by (induction xs ys rule: list_induct2) auto

lemma length_fixedWidth: "length (fixedWidth w n) = w"
  by (induction w arbitrary: n) auto

lemma fixedWidth_order:
  "a < 10 ^ w \<Longrightarrow> b < 10 ^ w \<Longrightarrow>
   (fixedWidth w a < fixedWidth w b) = (a < b) \<and> (fixedWidth w a = fixedWidth w b) = (a = b)"
proof (induction w arbitrary: a b)
  case 0
  then show ?case by simp
next
  case (Suc w)
  have d: "a div 10 < 10 ^ w" "b div 10 < 10 ^ w"
    using Suc.prems by (simp_all add: less_mult_imp_div_less mult.commute)
  note ih = Suc.IH[OF d]
  have m: "a mod 10 < 10" "b mod 10 < 10" by simp_all
  note l = divmod_less[of a b] and e = divmod_eq[of a b]
  show ?case
    using ih l e
    by (simp add: snoc_less_snoc length_fixedWidth digit_char_less[OF m] digit_char_eq[OF m])
qed

lemma fixedWidth_zero: "fixedWidth w 0 = replicate w CHR ''0''"
  by (induction w) (simp_all add: digit_char_def replicate_append_same)

lemma padStart_snoc: "padStart (Suc w) c (xs @ [d]) = padStart w c xs @ [d]"
  by (simp add: padStart_def)

lemma padStart_toString:
  "n < 10 ^ Suc w \<Longrightarrow> padStart (Suc w) CHR ''0'' (toString n) = fixedWidth (Suc w) n"
proof (induction w arbitrary: n)
  case 0
  then show ?case by (subst toString.simps) (simp add: padStart_def)
next
  case (Suc w)
  show ?case
  proof (cases "n < 10")
    case True
    then show ?thesis
      by (subst toString.simps) (simp add: padStart_def fixedWidth_zero replicate_append_same)
  next
    case False
    have "n div 10 < 10 ^ Suc w"
      using Suc.prems by (simp add: less_mult_imp_div_less mult.commute)
    from Suc.IH[OF this] False show ?thesis
      by (subst toString.simps) (simp add: padStart_snoc del: fixedWidth.simps, simp)
  qed
qed

lemma toString_fixedWidth: "toString n = fixedWidth (length (toString n)) n"
proof (induction n rule: toString.induct)
  case (1 n)
  show ?case
  proof (cases "n < 10")
    case True
    then show ?thesis by (subst (1 2) toString.simps) simp
  next
    case False
    with 1 have ih: "toString (n div 10) = fixedWidth (length (toString (n div 10))) (n div 10)" by simp
    have t: "toString n = toString (n div 10) @ [digit_char (n mod 10)]"
      using False by (subst toString.simps) simp
    show ?thesis unfolding t using ih by simp
  qed
qed

lemma less_pow_length_toString: "n < 10 ^ length (toString n)"
proof (induction n rule: toString.induct)
  case (1 n)
  show ?case
  proof (cases "n < 10")
    case True
    then show ?thesis by (subst toString.simps) simp
  next
    case False
    with 1 have ih: "n div 10 < 10 ^ length (toString (n div 10))" by simp
    have t: "toString n = toString (n div 10) @ [digit_char (n mod 10)]"
      using False by (subst toString.simps) simp
    from ih have "n < 10 * 10 ^ length (toString (n div 10))"
      by (metis div_less_iff_less_mult mult.commute zero_less_numeral)
    then show ?thesis unfolding t by simp
  qed
qed


lemma append_less_append:
  "length xs = length ys \<Longrightarrow> (xs @ s < ys @ t) = (xs < ys \<or> xs = ys \<and> s < t)"
  for xs ys :: "'a::linorder list"
  by (induction xs ys rule: list_induct2) auto

lemma sort_map_mono:
  fixes f :: "'a::linorder \<Rightarrow> 'b::linorder"
  assumes "\<And>x y. x \<in> set xs \<Longrightarrow> y \<in> set xs \<Longrightarrow> x \<le> y \<Longrightarrow> f x \<le> f y"
  shows "sort (map f xs) = map f (sort xs)"
proof (rule properties_for_sort)
  show "mset (map f (sort xs)) = mset (map f xs)" by simp
  have "sorted_wrt (\<lambda>x y. f x \<le> f y) (sort xs)"
    by (rule sorted_wrt_mono_rel[where P = "(\<le>)"]) (use assms in auto)
  then show "sorted (map f (sort xs))" by (simp add: sorted_map)
qed

lemma segmentFileName_less_small:
  assumes "i < j" and "j < 100000"
  shows "segmentFileName i < segmentFileName j"
proof -
  have s5: "Suc 4 = 5" by simp
  have p: "padStart 5 CHR ''0'' (toString n) = fixedWidth 5 n" if "n < 100000" for n
    using padStart_toString[of n 4, unfolded s5] that by simp
  have "fixedWidth 5 i < fixedWidth 5 j"
    using fixedWidth_order[of i 5 j] assms by simp
  then show ?thesis
    using assms by (simp add: segmentFileName_def p append_less_append length_fixedWidth del: fixedWidth.simps)
qed

lemma segmentFileName_less_same_length:
  assumes "i < j" and "length (toString i) = length (toString j)"
  shows "segmentFileName i < segmentFileName j"
proof -
  have "fixedWidth (length (toString j)) i < fixedWidth (length (toString j)) j"
    using fixedWidth_order[of i "length (toString j)" j] assms less_pow_length_toString[of i]
      less_pow_length_toString[of j] by simp
  then have "toString i < toString j"
    using toString_fixedWidth[of i] toString_fixedWidth[of j] assms(2) by simp
  then show ?thesis
    using assms(2) by (simp add: segmentFileName_def padStart_def append_less_append)
qed

lemma segmentFileName_examples:
  "segmentFileName 0 = ''00000.ts''" "segmentFileName 2 = ''00002.ts''"
  "segmentFileName 99999 = ''99999.ts''" "segmentFileName 100000 = ''100000.ts''"
proof -
  have r: "replicate 4 c = [c, c, c, c]" for c :: char
    by (simp add: numeral_eq_Suc)
  show "segmentFileName 0 = ''00000.ts''" "segmentFileName 2 = ''00002.ts''"
    "segmentFileName 99999 = ''99999.ts''" "segmentFileName 100000 = ''100000.ts''"
    by (simp_all add: segmentFileName_def padStart_def toString.simps digit_char_def r)
qed

text \<open>
  Claim C6, as amended. For indices \<open>i < j\<close> whose padded index strings have the same
  length, that is when \<open>j\<close> is below 100000 or \<open>i\<close> and \<open>j\<close> have the same number of
  digits, the file name of \<open>i\<close> is strictly below the file name of \<open>j\<close> in the
  lexicographic order of strings. So for indices below 100000, sorting the file names
  gives the file names in index order.
\<close>

theorem segmentFileName_order:
  "(i < j \<and> (j < 100000 \<or> length (toString i) = length (toString j))
      \<longrightarrow> segmentFileName i < segmentFileName j) \<and>
   ((\<forall>i \<in> set idxs. i < 100000)
      \<longrightarrow> sort (map segmentFileName idxs) = map segmentFileName (sort idxs))"
proof -
  have "sort (map segmentFileName idxs) = map segmentFileName (sort idxs)"
    if b: "\<forall>i \<in> set idxs. i < 100000"
  proof (rule sort_map_mono)
    fix x y assume "x \<in> set idxs" "y \<in> set idxs" "x \<le> y"
    then show "segmentFileName x \<le> segmentFileName y"
      using segmentFileName_less_small[of x y] b by (cases "x = y") (auto simp: less_le)
  qed
  then show ?thesis
    using segmentFileName_less_small segmentFileName_less_same_length by blast
qed

text \<open>The indices 2 and 10, and the unsorted listing of the files 2 and 0.\<close>

theorem segmentFileName_order_witness:
  "(2::nat) < 10 \<and> (10::nat) < 100000 \<and> segmentFileName 2 < segmentFileName 10 \<and>
   sort (map segmentFileName [2, 0]) = [segmentFileName 0, segmentFileName 2]"
proof -
  have s: "sort [2, 0 :: nat] = [0, 2]" by simp
  from segmentFileName_order[of 2 10 "[2, 0]"] show ?thesis
    unfolding s by simp
qed

text \<open>
  The claim as stated fails at the first index with six digits: \<open>padStart\<close> leaves
  \<open>100000\<close> as it is, and \<open>99999.ts\<close> is above \<open>100000.ts\<close>.
\<close>

theorem segmentFileName_order_counterexample:
  "(99999::nat) < 100000 \<and> \<not> segmentFileName 99999 < segmentFileName 100000"
  by (simp add: segmentFileName_def padStart_def toString.simps digit_char_def)

section \<open>Properties of the assembler\<close>

lemma concat_chunksOf: "0 < n \<Longrightarrow> concat (chunksOf n xs) = xs"
proof (induction n xs rule: chunksOf.induct)
  case (1 n xs)
  then show ?case by (subst chunksOf.simps) auto
qed

lemma foldl_writeChunk:
  assumes "dirs w (dirname out) = Some esd" and "map_of esd (basename out) = Some (File written)"
  shows "foldl (writeChunk out) w chunks =
           w\<lparr>dirs := (dirs w)(dirname out \<mapsto> AList.update (basename out) (File (written @ concat chunks)) esd)\<rparr>"
  using assms
proof (induction chunks arbitrary: w esd written)
  case Nil
  then show ?case by (simp add: update_triv fun_upd_idem)
next
  case (Cons c cs)
  let ?esd = "AList.update (basename out) (File (written @ c)) esd"
  let ?w = "w\<lparr>dirs := (dirs w)(dirname out \<mapsto> ?esd)\<rparr>"
  have s: "writeChunk out w c = ?w"
    using Cons.prems by (simp add: writeChunk_def appendBytes_def)
  have step: "foldl (writeChunk out) w (c # cs) = foldl (writeChunk out) ?w cs"
    by (simp add: s)
  have ih: "foldl (writeChunk out) ?w cs =
          ?w\<lparr>dirs := (dirs ?w)(dirname out \<mapsto> AList.update (basename out) (File ((written @ c) @ concat cs)) ?esd)\<rparr>"
    by (rule Cons.IH) (simp_all add: update_conv')
  have eq: "?w\<lparr>dirs := (dirs ?w)(dirname out \<mapsto> AList.update (basename out) (File ((written @ c) @ concat cs)) ?esd)\<rparr>
      = w\<lparr>dirs := (dirs w)(dirname out \<mapsto> AList.update (basename out) (File (written @ concat (c # cs))) esd)\<rparr>"
    by (simp add: update_last)
  show ?case unfolding step ih eq by (rule refl)
qed

lemma readFile_other:
  assumes "p \<noteq> out"
  shows "readFile (w\<lparr>dirs := (dirs w)(dirname out \<mapsto> AList.update (basename out) e esd)\<rparr>) p =
           (if dirname p = dirname out
            then (case map_of esd (basename p) of Some (File bytes) \<Rightarrow> Some bytes | _ \<Rightarrow> None)
            else readFile w p)"
proof -
  have "basename p \<noteq> basename out" if "dirname p = dirname out"
    using that assms by (cases p; cases out) (simp add: dirname_def basename_def)
  then show ?thesis by (simp add: readFile_def update_conv')
qed

lemma createReadStream_readFile:
  "readFile w p = Some bytes \<Longrightarrow> createReadStream p w = (chunksOf 65536 bytes, None)"
  by (auto simp: readFile_def createReadStream_def split: option.splits entry.splits)

lemma mergeLoop_files:
  assumes "dirs w (dirname out) = Some esd" and "map_of esd (basename out) = Some (File written)"
    and "\<forall>f \<in> set files. pathJoin folder f \<noteq> out \<and> readFile w (pathJoin folder f) = Some (b f)"
  shows "mergeLoop folder out files w =
           (Inr (), w\<lparr>dirs := (dirs w)(dirname out \<mapsto>
                       AList.update (basename out) (File (written @ concat (map b files))) esd)\<rparr>)"
  using assms
proof (induction files arbitrary: w esd written)
  case Nil
  then show ?case by (simp add: update_triv fun_upd_idem)
next
  case (Cons f fs)
  let ?esd = "AList.update (basename out) (File (written @ b f)) esd"
  let ?w = "w\<lparr>dirs := (dirs w)(dirname out \<mapsto> ?esd)\<rparr>"
  have r: "createReadStream (pathJoin folder f) w = (chunksOf 65536 (b f), None)"
    using Cons.prems(3) by (simp add: createReadStream_readFile)
  have c: "foldl (writeChunk out) w (chunksOf 65536 (b f)) = ?w"
    using foldl_writeChunk[OF Cons.prems(1,2)] by (simp add: concat_chunksOf)
  have same: "readFile ?w (pathJoin folder g) = readFile w (pathJoin folder g)"
    if "pathJoin folder g \<noteq> out" for g
    using that Cons.prems(1) by (auto simp: readFile_other) (simp add: readFile_def)
  have step: "mergeLoop folder out (f # fs) w = mergeLoop folder out fs ?w"
    by (simp add: r c)
  have ih: "mergeLoop folder out fs ?w =
          (Inr (), ?w\<lparr>dirs := (dirs ?w)(dirname out \<mapsto>
                       AList.update (basename out) (File ((written @ b f) @ concat (map b fs))) ?esd)\<rparr>)"
    by (rule Cons.IH) (use Cons.prems(3) same in \<open>simp_all add: update_conv'\<close>)
  have eq: "?w\<lparr>dirs := (dirs ?w)(dirname out \<mapsto>
                       AList.update (basename out) (File ((written @ b f) @ concat (map b fs))) ?esd)\<rparr>
      = w\<lparr>dirs := (dirs w)(dirname out \<mapsto>
                       AList.update (basename out) (File (written @ concat (map b (f # fs)))) esd)\<rparr>"
    by (simp add: update_last)
  show ?case unfolding step ih eq by (rule refl)
qed

text \<open>What the creation of the directory and of the stream leave, when the destination can be written.\<close>

lemma open_destination:
  assumes "writable w out"
  defines "esd \<equiv> (case dirs w (dirname out) of None \<Rightarrow> [] | Some es \<Rightarrow> es)"
  shows "andThen (mkdir (dirname out)) (\<lambda>u. createWriteStream out) w =
           (Inr (), w\<lparr>dirs := (dirs w)(dirname out \<mapsto> AList.update (basename out) (File []) esd)\<rparr>)"
proof (cases "dirs w (dirname out)")
  case None
  then show ?thesis
    using assms by (simp add: writable_def andThen_def mkdir_def mkdirSync_def createWriteStream_def
        openForWriting_def)
next
  case (Some es)
  then show ?thesis
    using assms
    by (auto simp: writable_def andThen_def mkdir_def mkdirSync_def createWriteStream_def
        openForWriting_def split: option.splits entry.splits)
qed


lemma mergeTsFiles_unfold:
  assumes "dirs w folder = Some es"
  shows "mergeTsFiles folder out w =
     (let kept = sort (filter (\<lambda>f. endsWith f ''.ts'') (map fst es)) in
      if kept = [] then (Inr (), w\<lparr>console := console w @ [NoTsFilesFound]\<rparr>)
      else andThen (andThen (mkdir (dirname out)) (\<lambda>u. createWriteStream out))
             (\<lambda>u. mergeLoop folder out kept) w)"
  using assms
  by (simp add: mergeTsFiles_def readdir_def Let_def andThen_def split: prod.splits sum.splits)


lemma mergeTsFiles_written:
  assumes "dirs w folder = Some es" and "sort (filter (\<lambda>f. endsWith f ''.ts'') (map fst es)) = kept"
    and h: "kept \<noteq> []" "\<forall>f \<in> set kept. isFile es f" "out \<notin> pathJoin folder ` set kept" "writable w out"
  defines "esd \<equiv> (case dirs w (dirname out) of None \<Rightarrow> [] | Some esd \<Rightarrow> esd)"
  defines "w1 \<equiv> w\<lparr>dirs := (dirs w)(dirname out \<mapsto>
                   AList.update (basename out) (File (concat (map (fileBytes es) kept))) esd)\<rparr>"
  shows "mergeTsFiles folder out w = (Inr (), w1)"
    and "readFile w1 out = Some (concat (map (fileBytes es) kept))"
    and "\<forall>f \<in> set kept. readFile w1 (pathJoin folder f) = Some (fileBytes es f)"
proof -
  let ?e0 = "AList.update (basename out) (File []) esd"
  let ?w0 = "w\<lparr>dirs := (dirs w)(dirname out \<mapsto> ?e0)\<rparr>"
  have o: "andThen (mkdir (dirname out)) (\<lambda>u. createWriteStream out) w = (Inr (), ?w0)"
    using open_destination[OF h(4)] by (simp add: esd_def)
  have src: "readFile w (pathJoin folder f) = Some (fileBytes es f)" if "f \<in> set kept" for f
    using h(2) that assms(1)
    by (auto simp: readFile_def isFile_def fileBytes_def pathJoin_def dirname_def basename_def
        split: option.splits entry.splits)
  have other: "readFile (w\<lparr>dirs := (dirs w)(dirname out \<mapsto> AList.update (basename out) e esd)\<rparr>)
      (pathJoin folder f) = readFile w (pathJoin folder f)" if "f \<in> set kept" for f e
  proof -
    have ne: "pathJoin folder f \<noteq> out" using h(3) that by auto
    have "dirs w (dirname out) = Some esd" if "dirname (pathJoin folder f) = dirname out"
      using that assms(1) by (simp add: esd_def pathJoin_def dirname_def)
    then show ?thesis by (simp add: readFile_other[OF ne]) (simp add: readFile_def)
  qed
  have "mergeLoop folder out kept ?w0 =
        (Inr (), ?w0\<lparr>dirs := (dirs ?w0)(dirname out \<mapsto>
                     AList.update (basename out) (File ([] @ concat (map (fileBytes es) kept))) ?e0)\<rparr>)"
  proof (rule mergeLoop_files)
    show "dirs ?w0 (dirname out) = Some ?e0" by simp
    show "map_of ?e0 (basename out) = Some (File [])" by (simp add: update_conv')
    show "\<forall>f \<in> set kept. pathJoin folder f \<noteq> out \<and>
            readFile ?w0 (pathJoin folder f) = Some (fileBytes es f)"
      using h(3) other src by auto
  qed
  also have "?w0\<lparr>dirs := (dirs ?w0)(dirname out \<mapsto>
                     AList.update (basename out) (File ([] @ concat (map (fileBytes es) kept))) ?e0)\<rparr> = w1"
    by (simp add: update_last w1_def)
  finally have m: "mergeLoop folder out kept ?w0 = (Inr (), w1)" .
  show "mergeTsFiles folder out w = (Inr (), w1)"
    using mergeTsFiles_unfold[OF assms(1), of out] assms(2) h(1) o m by (simp add: andThen_def)
  show "readFile w1 out = Some (concat (map (fileBytes es) kept))"
    by (simp add: readFile_def update_conv' w1_def)
  show "\<forall>f \<in> set kept. readFile w1 (pathJoin folder f) = Some (fileBytes es f)"
    using other src by (simp add: w1_def)
qed





section \<open>Properties of the segment tasks\<close>

text \<open>What \<open>downloadTs\<close> throws is an \<open>Error\<close>, and a failed attempt changes nothing but the network.\<close>

lemma writeFile_failure: "writeFile p buffer w = (Inl e, w') \<Longrightarrow> (\<exists>msg. e = Error msg) \<and> w' = w"
  by (auto simp: writeFile_def openForWriting_def split: option.splits entry.splits)

lemma downloadTs_failure:
  "downloadTs fetch u i folder w = (Inl e, w') \<Longrightarrow>
   (\<exists>msg. e = Error msg) \<and> w' = w\<lparr>net := net w'\<rparr>"
  by (auto simp: downloadTs_def split: prod.splits sum.splits if_splits dest!: writeFile_failure)

lemma retryFrom_downloadTs_failure:
  "retryFrom (downloadTs fetch u i folder) r k w = (Inl e, w') \<Longrightarrow>
   (\<exists>msg. e = Error msg) \<and> w' = w\<lparr>net := net w'\<rparr>"
proof (induction "downloadTs fetch u i folder" r k w rule: retryFrom.induct)
  case (1 r k w)
  show ?case
  proof (cases "k \<le> r")
    case False
    then show ?thesis using "1.prems" by (subst (asm) retryFrom.simps) auto
  next
    case True
    obtain a w1 where f: "downloadTs fetch u i folder w = (a, w1)" by (cases "downloadTs fetch u i folder w")
    show ?thesis
    proof (cases a)
      case (Inr v)
      then show ?thesis using "1.prems" True f by (subst (asm) retryFrom.simps) simp
    next
      case (Inl e1)
      from downloadTs_failure[OF f[unfolded Inl]] obtain msg where
        e1: "e1 = Error msg" and w1: "w1 = w\<lparr>net := net w1\<rparr>" by blast
      show ?thesis
      proof (cases "k = r")
        case True
        then show ?thesis using "1.prems" f Inl e1 w1 by (subst (asm) retryFrom.simps) auto
      next
        case False
        then have "retryFrom (downloadTs fetch u i folder) r (k + 1) w1 = (Inl e, w')"
          using "1.prems" f Inl True by (subst (asm) retryFrom.simps) simp
        from "1.hyps"[OF True f[symmetric] Inl False this] w1 show ?thesis
          by (metis world.surjective world.update_convs(1))
      qed
    qed
  qed
qed

lemma segmentTask_never_throws: "fst (segmentTask fetch u i folder w) = Inr ()"
  by (simp add: segmentTask_def split: prod.splits sum.splits js_error.splits)

lemma segmentTask_residual_failure:
  assumes "retry (downloadTs fetch u i folder) 3 w = (Inl e, w')"
  shows "\<exists>msg. e = Error msg \<and>
           segmentTask fetch u i folder w = (Inr (), w'\<lparr>console := console w' @ [DownloadFailed u msg]\<rparr>) \<and>
           dirs w' = dirs w \<and> console w' = console w"
proof -
  from retryFrom_downloadTs_failure[OF assms[unfolded retry_def]]
  obtain msg where e: "e = Error msg" and w': "w' = w\<lparr>net := net w'\<rparr>" by blast
  have "dirs w' = dirs w \<and> console w' = console w"
    by (subst w', simp)+
  then show ?thesis using assms e by (simp add: segmentTask_def)
qed

subsection \<open>The steps of a task, run without interruption, are the task\<close>

lemma advance_Finished:
  "((\<lambda>(ph, w). advance fetch u i folder ph w) ^^ m) (Finished, w) = (Finished, w)"
  by (induction m) (simp_all add: funpow_swap1)

lemma advance_retryFrom:
  assumes "d = 4 - k"
  shows "\<exists>m \<le> 2 * d + 1. ((\<lambda>(ph, w). advance fetch u i folder ph w) ^^ m) (Fetching k, w) =
           (Finished,
            case retryFrom (downloadTs fetch u i folder) 3 (int k) w of
              (Inr x, w') \<Rightarrow> w'
            | (Inl err, w') \<Rightarrow>
                (case err of
                   Error msg \<Rightarrow> w'\<lparr>console := console w' @ [DownloadFailed u msg]\<rparr>
                 | NonError v \<Rightarrow> w'))"
  using assms
proof (induction d arbitrary: k w)
  case 0
  then have k: "\<not> k \<le> 3" by simp
  then have "retryFrom (downloadTs fetch u i folder) 3 (int k) w = (Inl (Error ''Unexpected retry failure''), w)"
    by (subst retryFrom.simps) simp
  moreover have "((\<lambda>(ph, w). advance fetch u i folder ph w) ^^ 1) (Fetching k, w) =
      (Finished, w\<lparr>console := console w @ [DownloadFailed u ''Unexpected retry failure'']\<rparr>)"
    using k by simp
  ultimately show ?case by (intro exI[of _ 1]) simp
next
  case (Suc d)
  let ?adv = "\<lambda>(ph, w). advance fetch u i folder ph w"
  let ?dl = "downloadTs fetch u i folder"
  let ?catch = "\<lambda>r :: (js_error + unit) \<times> 'a world. case r of
              (Inr x, w') \<Rightarrow> w'
            | (Inl err, w') \<Rightarrow>
                (case err of
                   Error msg \<Rightarrow> w'\<lparr>console := console w' @ [DownloadFailed u msg]\<rparr>
                 | NonError v \<Rightarrow> w')"
  have k: "k \<le> 3" "d = 4 - (k + 1)" using Suc.prems by simp_all
  from Suc.IH[OF k(2)] have ih: "\<exists>m \<le> 2 * d + 1. (?adv ^^ m) (Fetching (k + 1), w1) =
      (Finished, ?catch (retryFrom ?dl 3 (int (k + 1)) w1))" for w1 .
  text \<open>An attempt that fails with \<open>e\<close> in the world \<open>w1\<close>.\<close>
  have fails: "\<exists>m \<le> 2 * d + 1. (?adv ^^ m) (attemptFails u k e w1) = (Finished, ?catch (retryFrom ?dl 3 (int k) w))"
    if f: "?dl w = (Inl e, w1)" for e w1
  proof (cases "k = 3")
    case True
    have "retryFrom ?dl 3 (int k) w = (Inl e, w1)"
      using f True by (subst retryFrom.simps) simp
    then have "(?adv ^^ 0) (attemptFails u k e w1) = (Finished, ?catch (retryFrom ?dl 3 (int k) w))"
      using True by (simp add: attemptFails_def split: js_error.splits)
    then show ?thesis by blast
  next
    case False
    have r: "retryFrom ?dl 3 (int k) w = retryFrom ?dl 3 (int (k + 1)) w1"
      using f False k(1) by (subst retryFrom.simps) (simp add: add.commute)
    from ih[of w1] obtain m where m: "m \<le> 2 * d + 1"
      "(?adv ^^ m) (Fetching (k + 1), w1) = (Finished, ?catch (retryFrom ?dl 3 (int (k + 1)) w1))" by blast
    have "(?adv ^^ m) (attemptFails u k e w1) = (Finished, ?catch (retryFrom ?dl 3 (int k) w))"
      using m(2) False by (simp add: attemptFails_def r)
    then show ?thesis using m(1) by (intro exI[of _ m]) simp
  qed
  obtain a n' where fe: "fetch u (net w) = (a, n')" by (cases "fetch u (net w)")
  show ?case
  proof (cases "\<exists>res. a = Inr res \<and> ok res")
    case False
    define e where "e = (case a of Inl msg \<Rightarrow> Error msg | Inr res \<Rightarrow> Error (''HTTP '' @ toString (status res)))"
    have f: "?dl w = (Inl e, w\<lparr>net := n'\<rparr>)"
      using False fe by (auto simp: downloadTs_def e_def split: sum.splits)
    have s: "?adv (Fetching k, w) = attemptFails u k e (w\<lparr>net := n'\<rparr>)"
      using False fe k(1) by (auto simp: e_def split: sum.splits)
    from fails[OF f] obtain m where m: "m \<le> 2 * d + 1"
      "(?adv ^^ m) (attemptFails u k e (w\<lparr>net := n'\<rparr>)) = (Finished, ?catch (retryFrom ?dl 3 (int k) w))" by blast
    have "(?adv ^^ Suc m) (Fetching k, w) = (Finished, ?catch (retryFrom ?dl 3 (int k) w))"
      unfolding funpow_Suc_right o_def s using m(2) .
    then show ?thesis using m(1) by (intro exI[of _ "Suc m"]) simp
  next
    case True
    then obtain res where a: "a = Inr res" "ok res" by blast
    have s1: "?adv (Fetching k, w) = (Writing k (body res), w\<lparr>net := n'\<rparr>)"
      using fe a k(1) by simp
    obtain b w2 where wf: "writeFile (pathJoin folder (segmentFileName i)) (body res) (w\<lparr>net := n'\<rparr>) = (b, w2)"
      by (cases "writeFile (pathJoin folder (segmentFileName i)) (body res) (w\<lparr>net := n'\<rparr>)")
    show ?thesis
    proof (cases b)
      case (Inl e)
      have f: "?dl w = (Inl e, w2)"
        using fe a wf Inl by (simp add: downloadTs_def)
      have s2: "?adv (Writing k (body res), w\<lparr>net := n'\<rparr>) = attemptFails u k e w2"
        using wf Inl by simp
      from fails[OF f] obtain m where m: "m \<le> 2 * d + 1"
        "(?adv ^^ m) (attemptFails u k e w2) = (Finished, ?catch (retryFrom ?dl 3 (int k) w))" by blast
      have "(?adv ^^ Suc (Suc m)) (Fetching k, w) = (Finished, ?catch (retryFrom ?dl 3 (int k) w))"
        unfolding funpow_Suc_right o_def s1 s2 using m(2) .
      then show ?thesis using m(1) by (intro exI[of _ "Suc (Suc m)"]) simp
    next
      case (Inr x)
      have f: "?dl w = (Inr (), w2\<lparr>progress := progress w2 + 1\<rparr>)"
        using fe a wf Inr by (simp add: downloadTs_def)
      then have r: "retryFrom ?dl 3 (int k) w = (Inr (), w2\<lparr>progress := progress w2 + 1\<rparr>)"
        using k(1) by (subst retryFrom.simps) simp
      have s2: "?adv (Writing k (body res), w\<lparr>net := n'\<rparr>) = (Finished, w2\<lparr>progress := progress w2 + 1\<rparr>)"
        using wf Inr by simp
      have "(?adv ^^ Suc (Suc 0)) (Fetching k, w) = (Finished, ?catch (retryFrom ?dl 3 (int k) w))"
        unfolding funpow_Suc_right o_def s1 s2 by (simp add: r)
      then show ?thesis by (intro exI[of _ "Suc (Suc 0)"]) simp
    qed
  qed
qed

lemma advance_segmentTask:
  "((\<lambda>(ph, w). advance fetch u i folder ph w) ^^ 9) (Fetching 0, w) =
     (Finished, snd (segmentTask fetch u i folder w))"
proof -
  let ?adv = "\<lambda>(ph, w). advance fetch u i folder ph w"
  from advance_retryFrom[of 4 0 fetch u i folder w] obtain m where m: "m \<le> 9" and
    r: "(?adv ^^ m) (Fetching 0, w) =
         (Finished,
          case retryFrom (downloadTs fetch u i folder) 3 (int 0) w of
            (Inr x, w') \<Rightarrow> w'
          | (Inl err, w') \<Rightarrow>
              (case err of
                 Error msg \<Rightarrow> w'\<lparr>console := console w' @ [DownloadFailed u msg]\<rparr>
               | NonError v \<Rightarrow> w'))"
    by auto
  have "(?adv ^^ ((9 - m) + m)) (Fetching 0, w) = (?adv ^^ (9 - m)) ((?adv ^^ m) (Fetching 0, w))"
    by (simp only: funpow_add o_apply)
  moreover have "(9 - m) + m = 9" using m by simp
  ultimately have "(?adv ^^ 9) (Fetching 0, w) = (?adv ^^ (9 - m)) ((?adv ^^ m) (Fetching 0, w))"
    by simp
  also have "\<dots> = (?adv ^^ m) (Fetching 0, w)"
    unfolding r by (rule advance_Finished)
  finally show ?thesis
    unfolding r by (simp add: segmentTask_def retry_def split: prod.splits sum.splits js_error.splits)
qed

section \<open>Properties of the scheduler\<close>

lemma okQueue_append:
  "okQueue R (xs @ ys) = (okQueue R xs \<and> okQueue (R - {p. Finally p \<in> set xs}) ys)"
proof (induction xs arbitrary: R)
  case Nil
  then show ?case by simp
next
  case (Cons j xs)
  show ?case
  proof (cases j)
    case (Finally p)
    have "R - {p} - {q. Finally q \<in> set xs} = R - {q. Finally q \<in> set (j # xs)}"
      using Finally by auto
    then show ?thesis using Finally Cons.IH[of "R - {p}"] by simp
  qed (simp_all add: Cons.IH)
qed

lemma okQueue_subset: "okQueue R js \<Longrightarrow> R' \<subseteq> R \<Longrightarrow> okQueue R' js"
proof (induction R js arbitrary: R' rule: okQueue.induct)
  case (2 R p js)
  then show ?case by (simp add: Diff_mono)
qed auto

lemma okQueue_insert:
  "okQueue R js \<Longrightarrow> \<forall>r. RaceReaction r p \<notin> set js \<Longrightarrow> okQueue (insert p R) js"
proof (induction R js rule: okQueue.induct)
  case (2 R q js)
  show ?case
  proof (cases "q = p")
    case True
    then show ?thesis using 2 by simp
  next
    case False
    then have "insert p R - {q} = insert p (R - {q})" by auto
    then show ?thesis using 2 by simp
  qed
qed auto

lemma inv_initial: "1 \<le> limit \<Longrightarrow> inv n limit initial"
  by (simp add: inv_def invCount_def invQueue_def invBound_def invFinal_def initial_def pendingJobs_def)

subsection \<open>A promise settles\<close>

lemma pendingJobs_settle: "p \<in> pending s \<Longrightarrow> pendingJobs (settle p s) = pendingJobs s"
  by (auto simp: pendingJobs_def settle_def)

lemma settle_fields:
  "nxt (settle p s) = nxt s" "started (settle p s) = started s" "running (settle p s) = running s"
  "pending (settle p s) = pending s - {p}" "jobs (settle p s) = jobs s @ reactions s p"
  "races (settle p s) = races s" "pc (settle p s) = pc s"
  by (simp_all add: settle_def)

lemma invCount_settle: "invCount n s \<Longrightarrow> invCount n (settle p s)"
  by (auto simp: invCount_def settle_fields)

lemma invBound_settle: "invBound limit s \<Longrightarrow> p \<in> pending s \<Longrightarrow> invBound limit (settle p s)"
  by (simp add: invBound_def pendingJobs_settle settle_fields)

lemma invFinal_settle: "invFinal n s \<Longrightarrow> p \<in> pending s \<Longrightarrow> invFinal n (settle p s)"
  by (auto simp: invFinal_def pendingJobs_settle settle_fields)

lemma invQueue_settle:
  assumes "invQueue s" and "invCount n s" and "p \<in> pending s"
  shows "invQueue (settle p s)"
proof -
  from assms(1,3) obtain rest where r: "reactions s p = Finally p # rest"
    and rest: "\<forall>j \<in> set rest. (\<exists>r. j = RaceReaction r p) \<or> j = AllReaction p"
    unfolding invQueue_def by blast
  have pr: "p \<in> set (running s)" "p < nxt s"
    using assms(2,3) by (auto simp: invCount_def)
  have ok_rest: "okQueue R rest" if "p \<notin> R" for R
    using rest that by (induction R rest rule: okQueue.induct) auto
  have 1: "okQueue (set (running s)) (jobs s @ reactions s p)"
    using assms(1) by (simp add: okQueue_append r invQueue_def ok_rest)
  have 2: "\<forall>q \<in> pending s - {p}. \<exists>rest. ((reactions s)(p := [])) q = Finally q # rest \<and>
         (\<forall>j \<in> set rest. (\<exists>r. j = RaceReaction r q) \<or> j = AllReaction q)"
    using assms(1) by (auto simp: invQueue_def)
  have 3: "\<forall>q \<in> set (running s). q \<notin> pending s - {p} \<longrightarrow> Finally q \<in> set (jobs s @ reactions s p)"
    using assms(1) r by (auto simp: invQueue_def)
  have 4: "\<forall>j \<in> set (jobs s @ reactions s p). \<forall>q. promiseOf j = Some q \<longrightarrow> q < nxt s"
    using assms(1) r rest pr by (auto simp: invQueue_def)
  have 5: "\<forall>r q. RaceReaction r q \<in> pendingJobs (settle p s) \<longrightarrow> r < races s"
    using assms(1,3) by (simp add: pendingJobs_settle invQueue_def)
  have 6: "\<forall>j \<in> set (jobs s @ reactions s p). \<forall>q. promiseOf j = Some q \<longrightarrow> q \<notin> pending s - {p}"
    using assms(1) r rest by (auto simp: invQueue_def)
  show ?thesis
    unfolding invQueue_def settle_fields
    using 1 2 3 4 5 6 by (simp add: settle_def)
qed

lemma inv_settle: "inv n limit s \<Longrightarrow> p \<in> pending s \<Longrightarrow> inv n limit (settle p s)"
  unfolding inv_def using invCount_settle invBound_settle invFinal_settle invQueue_settle by blast


subsection \<open>A job runs\<close>

lemma pendingJobs_pop:
  "jobs s = j # js \<Longrightarrow> pendingJobs s = insert j (pendingJobs (s\<lparr>jobs := js\<rparr>))"
  by (auto simp: pendingJobs_def)

lemma invCount_runJob:
  assumes "invCount n s" and "invQueue s" and "jobs s = j # js"
  shows "invCount n (runJob j (s\<lparr>jobs := js\<rparr>))"
proof (cases j)
  case (Finally p)
  have "p \<notin> pending s" using assms(2,3) Finally by (auto simp: invQueue_def)
  then show ?thesis using assms(1) Finally by (auto simp: invCount_def distinct_removeAll)
next
  case (RaceReaction r p)
  then show ?thesis using assms(1) by (auto simp: invCount_def)
next
  case (AllReaction p)
  then show ?thesis using assms(1) by (auto simp: invCount_def split: pc.splits)
next
  case Resume
  then show ?thesis using assms(1) by (auto simp: invCount_def split: pc.splits bool.splits list.splits)
qed


lemma invQueue_pop:
  assumes "invQueue s" and "jobs s = j # js" and "\<forall>p. j \<noteq> Finally p"
  shows "invQueue (s\<lparr>jobs := js\<rparr>)"
proof -
  have ok: "okQueue (set (running s)) js"
    using assms by (cases j) (auto simp: invQueue_def)
  have fin: "\<forall>q \<in> set (running s). q \<notin> pending s \<longrightarrow> Finally q \<in> set js"
    using assms by (auto simp: invQueue_def)
  have sub: "pendingJobs (s\<lparr>jobs := js\<rparr>) \<subseteq> pendingJobs s"
    using assms(2) by (auto simp: pendingJobs_def)
  show ?thesis
    unfolding invQueue_def using assms(1,2) ok fin sub
    by (simp add: invQueue_def subset_iff) blast
qed

lemma invQueue_enqueue_Resume:
  "invQueue s \<Longrightarrow> invQueue (s\<lparr>pc := x, jobs := jobs s @ [Resume]\<rparr>)"
  by (auto simp: invQueue_def okQueue_append pendingJobs_def)

lemma invQueue_pc: "invQueue s \<Longrightarrow> invQueue (s\<lparr>pc := x\<rparr>)"
  by (auto simp: invQueue_def pendingJobs_def)

lemma invQueue_runJob:
  assumes "invQueue s" and "jobs s = j # js"
  shows "invQueue (runJob j (s\<lparr>jobs := js\<rparr>))"
proof (cases j)
  case (Finally p)
  have ok: "okQueue (set (removeAll p (running s))) js"
    using assms Finally by (auto simp: invQueue_def)
  have fin: "\<forall>q \<in> set (removeAll p (running s)). q \<notin> pending s \<longrightarrow> Finally q \<in> set js"
    using assms Finally by (auto simp: invQueue_def)
  have sub: "pendingJobs (s\<lparr>jobs := js, running := removeAll p (running s)\<rparr>) \<subseteq> pendingJobs s"
    using assms(2) by (auto simp: pendingJobs_def)
  show ?thesis
    unfolding invQueue_def using assms(1,2) ok fin sub Finally
    by (simp add: invQueue_def subset_iff) blast
next
  case (RaceReaction r p)
  have "invQueue (s\<lparr>jobs := js\<rparr>)"
    by (rule invQueue_pop[OF assms]) (simp add: RaceReaction)
  then show ?thesis
    using RaceReaction invQueue_enqueue_Resume[of "s\<lparr>jobs := js\<rparr>" "AwaitRace r True"] by simp
next
  case (AllReaction p)
  have "invQueue (s\<lparr>jobs := js\<rparr>)"
    by (rule invQueue_pop[OF assms]) (simp add: AllReaction)
  then show ?thesis
    using AllReaction invQueue_enqueue_Resume[of "s\<lparr>jobs := js\<rparr>" "AwaitAll []"]
      invQueue_pc[of "s\<lparr>jobs := js\<rparr>"]
    by (simp split: pc.splits)
next
  case Resume
  have "invQueue (s\<lparr>jobs := js\<rparr>)"
    by (rule invQueue_pop[OF assms]) (simp add: Resume)
  then show ?thesis
    using Resume invQueue_pc[of "s\<lparr>jobs := js\<rparr>"]
    by (simp split: pc.splits bool.splits list.splits)
qed


lemma length_removeAll_le: "length (removeAll p xs) \<le> length xs"
  by (simp add: removeAll_filter_not_eq)

lemma length_removeAll_less: "p \<in> set xs \<Longrightarrow> length (removeAll p xs) < length xs"
  by (simp add: removeAll_filter_not_eq length_filter_less)

lemma invBound_runJob:
  assumes "invBound limit s" and "invQueue s" and "jobs s = j # js"
  shows "invBound limit (runJob j (s\<lparr>jobs := js\<rparr>))"
proof (cases j)
  case (Finally p)
  let ?s = "s\<lparr>jobs := js, running := removeAll p (running s)\<rparr>"
  have pj: "pendingJobs s = insert j (pendingJobs ?s)"
    using assms(3) by (auto simp: pendingJobs_def)
  have le: "length (removeAll p (running s)) \<le> length (running s)"
    by (rule length_removeAll_le)
  have len: "length (running s) \<le> limit"
    using assms(1) by (simp add: invBound_def)
  have lt: "q \<in> set (removeAll p (running s)) \<or> length (removeAll p (running s)) < limit"
    if h: "q \<in> set (running s) \<or> length (running s) < limit" for q
  proof (cases "length (running s) < limit")
    case True
    then show ?thesis using le by linarith
  next
    case False
    then have q: "q \<in> set (running s)" using h by blast
    show ?thesis
    proof (cases "q = p")
      case True
      then have "length (removeAll p (running s)) < length (running s)"
        using q by (simp add: length_removeAll_less)
      then show ?thesis using len by linarith
    next
      case False
      then show ?thesis using q by simp
    qed
  qed
  have "invBound limit ?s"
    unfolding invBound_def
  proof (intro conjI allI impI)
    have le': "length (removeAll p (running s)) \<le> limit" using le len by linarith
    have lt': "length (removeAll p (running s)) < limit" if "length (running s) < limit"
      using le that by linarith
    show "length (running ?s) \<le> limit" using le' by simp
    have "length (running s) < limit" if "pc ?s = Loop" using that assms(1) by (simp add: invBound_def)
    then show "length (running ?s) < limit" if "pc ?s = Loop" using that lt' by simp
    have "length (running s) < limit" if "pc ?s = AwaitRace r True" for r
      using that assms(1) by (auto simp: invBound_def)
    then show "length (running ?s) < limit" if "pc ?s = AwaitRace r True" for r
      using that lt' by simp
    show "Resume \<in> set (jobs ?s)" if "pc ?s = AwaitRace r True" for r
      using that assms(1,3) Finally by (auto simp: invBound_def)
    show "r < races ?s" if "pc ?s = AwaitRace r False" for r
      using that assms(1) by (auto simp: invBound_def)
    show "\<exists>q. RaceReaction r q \<in> pendingJobs ?s" if "pc ?s = AwaitRace r False" for r
      using that assms(1) pj Finally by (auto simp: invBound_def)
    show "q \<in> set (running ?s) \<or> length (running ?s) < limit"
      if "pc ?s = AwaitRace r False" "RaceReaction r q \<in> pendingJobs ?s" for r q
      using that assms(1) pj lt[of q] by (auto simp: invBound_def)
  qed
  then show ?thesis using Finally by simp
next
  case (RaceReaction r p)
  let ?s = "s\<lparr>jobs := js\<rparr>"
  have pj: "pendingJobs s = insert j (pendingJobs ?s)"
    using assms(3) by (auto simp: pendingJobs_def)
  show ?thesis
  proof (cases "pc s = AwaitRace r False")
    case True
    have "p \<notin> set (running s)" using assms(2,3) RaceReaction by (auto simp: invQueue_def)
    moreover have "RaceReaction r p \<in> pendingJobs s" using pj RaceReaction by simp
    ultimately have "length (running s) < limit" using assms(1) True by (auto simp: invBound_def)
    then show ?thesis using True RaceReaction by (simp add: invBound_def)
  next
    case False
    have "invBound limit ?s"
      using assms(1,3) False pj RaceReaction by (auto simp: invBound_def)
    then show ?thesis using False RaceReaction by simp
  qed
next
  case (AllReaction p)
  let ?s = "s\<lparr>jobs := js\<rparr>"
  have pj: "pendingJobs s = insert j (pendingJobs ?s)"
    using assms(3) by (auto simp: pendingJobs_def)
  have "invBound limit ?s"
    using assms(1,3) pj AllReaction by (auto simp: invBound_def)
  then show ?thesis using AllReaction by (auto simp: invBound_def split: pc.splits)
next
  case Resume
  let ?s = "s\<lparr>jobs := js\<rparr>"
  have pj: "pendingJobs s = insert j (pendingJobs ?s)"
    using assms(3) by (auto simp: pendingJobs_def)
  show ?thesis
  proof (cases "\<exists>r. pc s = AwaitRace r True")
    case True
    then show ?thesis using assms(1) Resume by (auto simp: invBound_def)
  next
    case False
    have "invBound limit ?s"
      using assms(1,3) pj Resume False by (auto simp: invBound_def)
    then show ?thesis using Resume False by (auto simp: invBound_def split: pc.splits bool.splits list.splits)
  qed
qed

lemma invFinal_runJob:
  assumes "invFinal n s" and "invQueue s" and "jobs s = j # js"
  shows "invFinal n (runJob j (s\<lparr>jobs := js\<rparr>))"
proof -
  let ?s = "s\<lparr>jobs := js\<rparr>"
  have pj: "pendingJobs s = insert j (pendingJobs ?s)"
    using assms(3) by (auto simp: pendingJobs_def)
  show ?thesis
  proof (cases j)
    case (Finally p)
    have "pendingJobs (s\<lparr>jobs := js, running := removeAll p (running s)\<rparr>) = pendingJobs ?s"
      by (simp add: pendingJobs_def)
    then show ?thesis using assms(1,3) pj Finally by (auto simp: invFinal_def)
  next
    case (RaceReaction r p)
    then show ?thesis using assms(1,3) pj by (auto simp: invFinal_def)
  next
    case (AllReaction p)
    have np: "p \<notin> pending s" using assms(2,3) AllReaction by (auto simp: invQueue_def)
    show ?thesis
    proof (cases "\<exists>rest. pc s = AwaitAll rest \<and> p \<in> set rest")
      case True
      then obtain rest where rest: "pc s = AwaitAll rest" "p \<in> set rest" by blast
      have a: "pending s \<subseteq> set (removeAll p rest)" using assms(1) rest np by (auto simp: invFinal_def)
      have a': "pending s = {}" if "removeAll p rest = []" using a that by simp
      have b: "\<forall>q \<in> set (removeAll p rest). AllReaction q \<in> pendingJobs ?s"
        using assms(1) rest pj AllReaction by (auto simp: invFinal_def)
      have c: "nxt s = n" using assms(1) rest by (auto simp: invFinal_def)
      have d: "pendingJobs (s\<lparr>jobs := js, pc := x\<rparr>) = pendingJobs ?s"
        "pendingJobs (s\<lparr>jobs := js @ [Resume], pc := x\<rparr>) = insert Resume (pendingJobs ?s)" for x
        by (auto simp: pendingJobs_def)
      show ?thesis using rest a a' b c d AllReaction by (auto simp: invFinal_def)
    next
      case False
      have "invFinal n ?s" using assms(1,3) pj AllReaction False by (auto simp: invFinal_def)
      then show ?thesis using False AllReaction by (auto split: pc.splits)
    qed
  next
    case Resume
    show ?thesis
    proof (cases "pc s = AwaitAll []")
      case True
      then show ?thesis using assms(1) Resume by (auto simp: invFinal_def)
    next
      case False
      have "invFinal n ?s" using assms(1,3) pj Resume False by (auto simp: invFinal_def)
      then show ?thesis using False Resume by (auto simp: invFinal_def split: pc.splits bool.splits list.splits)
    qed
  qed
qed

lemma inv_runJob:
  "inv n limit s \<Longrightarrow> jobs s = j # js \<Longrightarrow> inv n limit (runJob j (s\<lparr>jobs := js\<rparr>))"
  unfolding inv_def using invCount_runJob invQueue_runJob invBound_runJob invFinal_runJob by blast


subsection \<open>Reactions are registered\<close>

lemma subscribeAll_fields:
  "nxt (subscribeAll f qs s) = nxt s" "started (subscribeAll f qs s) = started s"
  "running (subscribeAll f qs s) = running s" "pending (subscribeAll f qs s) = pending s"
  "races (subscribeAll f qs s) = races s" "pc (subscribeAll f qs s) = pc s"
  "jobs (subscribeAll f qs s) = jobs s @ map f (filter (\<lambda>q. q \<notin> pending s) qs)"
  "reactions (subscribeAll f qs s) p =
     (if p \<in> set qs \<and> p \<in> pending s then reactions s p @ [f p] else reactions s p)"
  by (simp_all add: subscribeAll_def)

lemma pendingJobs_subscribeAll:
  "pendingJobs (subscribeAll f qs s) = pendingJobs s \<union> f ` set qs"
  by (auto simp: pendingJobs_def subscribeAll_fields split: if_splits)

lemma okQueue_RaceReactions: "okQueue R (map (RaceReaction r) qs) = (\<forall>q \<in> set qs. q \<notin> R)"
  by (induction qs) auto

lemma okQueue_AllReactions: "okQueue R (map AllReaction qs)"
  by (induction qs) auto

lemma invQueue_race:
  assumes "invQueue s" and "invCount n s"
  shows "invQueue ((subscribeAll (RaceReaction (races s)) (running s) s)\<lparr>races := races s + 1, pc := x\<rparr>)"
proof -
  let ?t = "subscribeAll (RaceReaction (races s)) (running s) s"
  let ?u = "?t\<lparr>races := races s + 1, pc := x\<rparr>"
  have pj: "pendingJobs ?u = pendingJobs s \<union> RaceReaction (races s) ` set (running s)"
    using pendingJobs_subscribeAll[of "RaceReaction (races s)" "running s" s]
    by (simp add: pendingJobs_def)
  have 1: "okQueue (set (running ?u)) (jobs ?u)"
    using assms(1) by (auto simp: subscribeAll_fields okQueue_append okQueue_RaceReactions invQueue_def)
  have 2: "\<forall>p \<in> pending ?u. \<exists>rest. reactions ?u p = Finally p # rest \<and>
         (\<forall>j \<in> set rest. (\<exists>r. j = RaceReaction r p) \<or> j = AllReaction p)"
    using assms(1) by (fastforce simp: subscribeAll_fields invQueue_def)
  have 3: "\<forall>q \<in> set (running ?u). q \<notin> pending ?u \<longrightarrow> Finally q \<in> set (jobs ?u)"
    using assms(1) by (auto simp: subscribeAll_fields invQueue_def)
  have 4: "\<forall>j \<in> set (jobs ?u). \<forall>p. promiseOf j = Some p \<longrightarrow> p < nxt ?u"
    using assms by (auto simp: subscribeAll_fields invQueue_def invCount_def)
  have 5: "\<forall>r q. RaceReaction r q \<in> pendingJobs ?u \<longrightarrow> r < races ?u"
    unfolding pj using assms(1) by (auto simp: invQueue_def less_Suc_eq)
  have 6: "\<forall>j \<in> set (jobs ?u). \<forall>p. promiseOf j = Some p \<longrightarrow> p \<notin> pending ?u"
    using assms(1) by (auto simp: subscribeAll_fields invQueue_def)
  show ?thesis unfolding invQueue_def using 1 2 3 4 5 6 by blast
qed

lemma invQueue_all:
  assumes "invQueue s" and "invCount n s"
  shows "invQueue ((subscribeAll AllReaction (running s) s)\<lparr>pc := x\<rparr>)"
proof -
  let ?t = "subscribeAll AllReaction (running s) s"
  let ?u = "?t\<lparr>pc := x\<rparr>"
  have pj: "pendingJobs ?u = pendingJobs s \<union> AllReaction ` set (running s)"
    using pendingJobs_subscribeAll[of AllReaction "running s" s]
    by (simp add: pendingJobs_def)
  have 1: "okQueue (set (running ?u)) (jobs ?u)"
    using assms(1) by (auto simp: subscribeAll_fields okQueue_append okQueue_AllReactions invQueue_def)
  have 2: "\<forall>p \<in> pending ?u. \<exists>rest. reactions ?u p = Finally p # rest \<and>
         (\<forall>j \<in> set rest. (\<exists>r. j = RaceReaction r p) \<or> j = AllReaction p)"
    using assms(1) by (fastforce simp: subscribeAll_fields invQueue_def)
  have 3: "\<forall>q \<in> set (running ?u). q \<notin> pending ?u \<longrightarrow> Finally q \<in> set (jobs ?u)"
    using assms(1) by (auto simp: subscribeAll_fields invQueue_def)
  have 4: "\<forall>j \<in> set (jobs ?u). \<forall>p. promiseOf j = Some p \<longrightarrow> p < nxt ?u"
    using assms by (auto simp: subscribeAll_fields invQueue_def invCount_def)
  have 5: "\<forall>r q. RaceReaction r q \<in> pendingJobs ?u \<longrightarrow> r < races ?u"
    unfolding pj using assms(1) by (auto simp: invQueue_def subscribeAll_fields)
  have 6: "\<forall>j \<in> set (jobs ?u). \<forall>p. promiseOf j = Some p \<longrightarrow> p \<notin> pending ?u"
    using assms(1) by (auto simp: subscribeAll_fields invQueue_def)
  show ?thesis unfolding invQueue_def using 1 2 3 4 5 6 by blast
qed

subsection \<open>A task is called\<close>

lemma callTask_fields:
  assumes "invCount n s"
  shows "nxt (callTask b s) = nxt s + 1" "started (callTask b s) = started s @ [nxt s]"
    "running (callTask b s) = running s @ [nxt s]"
    "pending (callTask b s) = (if b then pending s else insert (nxt s) (pending s))"
    "races (callTask b s) = races s" "pc (callTask b s) = pc s"
    "jobs (callTask b s) = jobs s @ (if b then [Finally (nxt s)] else [])"
    "reactions (callTask b s) = (reactions s)(nxt s := (if b then [] else [Finally (nxt s)]))"
proof -
  have "nxt s \<notin> pending s" using assms by (auto simp: invCount_def)
  then show "nxt (callTask b s) = nxt s + 1" "started (callTask b s) = started s @ [nxt s]"
    "running (callTask b s) = running s @ [nxt s]"
    "pending (callTask b s) = (if b then pending s else insert (nxt s) (pending s))"
    "races (callTask b s) = races s" "pc (callTask b s) = pc s"
    "jobs (callTask b s) = jobs s @ (if b then [Finally (nxt s)] else [])"
    "reactions (callTask b s) = (reactions s)(nxt s := (if b then [] else [Finally (nxt s)]))"
    by (auto simp: callTask_def subscribeAll_def Let_def fun_eq_iff)
qed

lemma pendingJobs_callTask:
  assumes "invCount n s"
  shows "pendingJobs (callTask b s) = insert (Finally (nxt s)) (pendingJobs s)"
proof -
  have "nxt s \<notin> pending s" using assms by (auto simp: invCount_def)
  then show ?thesis
    by (auto simp: pendingJobs_def callTask_fields[OF assms] split: if_splits)
qed

lemma invCount_callTask:
  assumes "invCount n s" and "nxt s < n"
  shows "invCount n (callTask b s)"
  using assms by (auto simp: invCount_def callTask_fields[OF assms(1)])

lemma invQueue_callTask:
  assumes "invQueue s" and "invCount n s"
  shows "invQueue (callTask b s)"
proof -
  let ?u = "callTask b s"
  note f = callTask_fields[OF assms(2)]
  have new: "nxt s \<notin> set (running s)" "nxt s \<notin> pending s"
    using assms(2) by (auto simp: invCount_def)
  have norace: "\<forall>r. RaceReaction r (nxt s) \<notin> set (jobs s)"
    using assms(1) by (fastforce simp: invQueue_def)
  have "okQueue (insert (nxt s) (set (running s))) (jobs s)"
    using assms(1) norace by (simp add: okQueue_insert invQueue_def)
  then have 1: "okQueue (set (running ?u)) (jobs ?u)"
    by (simp add: f okQueue_append)
  have 2: "\<forall>p \<in> pending ?u. \<exists>rest. reactions ?u p = Finally p # rest \<and>
         (\<forall>j \<in> set rest. (\<exists>r. j = RaceReaction r p) \<or> j = AllReaction p)"
  proof
    fix p assume p: "p \<in> pending ?u"
    show "\<exists>rest. reactions ?u p = Finally p # rest \<and>
         (\<forall>j \<in> set rest. (\<exists>r. j = RaceReaction r p) \<or> j = AllReaction p)"
    proof (cases "p = nxt s")
      case True
      then have "\<not> b" using p new by (simp add: f split: if_splits)
      then have "reactions ?u p = [Finally p]" using True by (simp add: f)
      then show ?thesis by simp
    next
      case False
      then have "p \<in> pending s" "reactions ?u p = reactions s p"
        using p by (simp_all add: f split: if_splits)
      then show ?thesis using assms(1) by (simp add: invQueue_def)
    qed
  qed
  have 3: "\<forall>q \<in> set (running ?u). q \<notin> pending ?u \<longrightarrow> Finally q \<in> set (jobs ?u)"
    using assms(1) by (auto simp: f invQueue_def)
  have 4: "\<forall>j \<in> set (jobs ?u). \<forall>p. promiseOf j = Some p \<longrightarrow> p < nxt ?u"
    using assms(1) by (auto simp: f invQueue_def less_Suc_eq)
  have 5: "\<forall>r q. RaceReaction r q \<in> pendingJobs ?u \<longrightarrow> r < races ?u"
    using assms(1) by (auto simp: pendingJobs_callTask[OF assms(2)] f invQueue_def)
  have 6: "\<forall>j \<in> set (jobs ?u). \<forall>p. promiseOf j = Some p \<longrightarrow> p \<notin> pending ?u"
  proof (intro ballI allI impI)
    fix j p assume j: "j \<in> set (jobs ?u)" and p: "promiseOf j = Some p"
    show "p \<notin> pending ?u"
    proof (cases "j \<in> set (jobs s)")
      case True
      then have "p < nxt s" "p \<notin> pending s" using assms(1) p by (auto simp: invQueue_def)
      then show ?thesis by (simp add: f)
    next
      case False
      then have "b" "j = Finally (nxt s)" using j by (auto simp: f split: if_splits)
      then show ?thesis using p new by (simp add: f)
    qed
  qed
  show ?thesis unfolding invQueue_def using 1 2 3 4 5 6 by blast
qed



lemma awaitRace_fields:
  "nxt (awaitRace s) = nxt s" "started (awaitRace s) = started s"
  "running (awaitRace s) = running s" "pending (awaitRace s) = pending s"
  "races (awaitRace s) = races s + 1" "pc (awaitRace s) = AwaitRace (races s) False"
  by (simp_all add: awaitRace_def subscribeAll_fields)

lemma pendingJobs_awaitRace:
  "pendingJobs (awaitRace s) = pendingJobs s \<union> RaceReaction (races s) ` set (running s)"
  using pendingJobs_subscribeAll[of "RaceReaction (races s)" "running s" s]
  by (simp add: pendingJobs_def awaitRace_def)

lemma invCount_awaitRace: "invCount n s \<Longrightarrow> invCount n (awaitRace s)"
  by (simp add: invCount_def awaitRace_fields)

lemma invBound_awaitRace:
  assumes "invQueue s" and "length (running s) \<le> limit" and "running s \<noteq> []"
  shows "invBound limit (awaitRace s)"
proof -
  obtain q where q: "q \<in> set (running s)" using assms(3) by (cases "running s") auto
  have old: "RaceReaction (races s) p \<notin> pendingJobs s" for p
    using assms(1) by (auto simp: invQueue_def)
  show ?thesis
    unfolding invBound_def awaitRace_fields pendingJobs_awaitRace
    using assms(2) q old by auto
qed

lemma invFinal_awaitRace: "invFinal n (awaitRace s)"
  by (simp add: invFinal_def awaitRace_fields)

lemma inv_startNext:
  assumes "inv n limit s" and "pc s = Loop" and "nxt s < n"
  shows "inv n limit (startNext limit b s)"
proof -
  let ?s = "callTask b s"
  have c: "invCount n s" and q: "invQueue s" and bd: "invBound limit s"
    using assms(1) by (simp_all add: inv_def)
  note f = callTask_fields[OF c]
  have c': "invCount n ?s" using c assms(3) by (rule invCount_callTask)
  have q': "invQueue ?s" using q c by (rule invQueue_callTask)
  have len: "length (running ?s) \<le> limit"
    using bd assms(2) by (simp add: invBound_def f)
  show ?thesis
  proof (cases "length (running ?s) \<ge> limit")
    case True
    have "invQueue (awaitRace ?s)"
      unfolding awaitRace_def using q' c' by (rule invQueue_race)
    moreover have "invBound limit (awaitRace ?s)"
      using q' len by (rule invBound_awaitRace) (simp add: f)
    ultimately show ?thesis
      using True c' by (simp add: inv_def startNext_def Let_def invCount_awaitRace invFinal_awaitRace)
  next
    case False
    have "invBound limit ?s" using False len assms(2) by (simp add: invBound_def f)
    moreover have "invFinal n ?s" using assms(2) by (simp add: invFinal_def f)
    ultimately show ?thesis
      using False c' q' by (simp add: inv_def startNext_def Let_def)
  qed
qed

subsection \<open>The last await\<close>

lemma invQueue_enqueue_Resume': "invQueue s \<Longrightarrow> invQueue (s\<lparr>jobs := jobs s @ [Resume]\<rparr>)"
  by (auto simp: invQueue_def okQueue_append pendingJobs_def)

lemma inv_awaitAll:
  assumes "inv n limit s" and "pc s = Loop" and "\<not> nxt s < n"
  shows "inv n limit (awaitAll s)"
proof -
  let ?t = "subscribeAll AllReaction (running s) s"
  have c: "invCount n s" and q: "invQueue s" and bd: "invBound limit s"
    using assms(1) by (simp_all add: inv_def)
  have n: "nxt s = n" using c assms(3) by (simp add: invCount_def)
  have pj: "pendingJobs ?t = pendingJobs s \<union> AllReaction ` set (running s)"
    by (rule pendingJobs_subscribeAll)
  have qa: "invQueue (?t\<lparr>pc := x\<rparr>)" for x using q c by (rule invQueue_all)
  show ?thesis
  proof (cases "running s = []")
    case True
    let ?u = "?t\<lparr>jobs := jobs ?t @ [Resume], pc := AwaitAll []\<rparr>"
    have u: "awaitAll s = ?u" using True by (simp add: awaitAll_def Let_def)
    have "invQueue ?t" using qa[of "pc ?t"] by simp
    then have "invQueue (?t\<lparr>jobs := jobs ?t @ [Resume]\<rparr>)" by (rule invQueue_enqueue_Resume')
    then have "invQueue ((?t\<lparr>jobs := jobs ?t @ [Resume]\<rparr>)\<lparr>pc := AwaitAll []\<rparr>)" by (rule invQueue_pc)
    then have 1: "invQueue ?u" by simp
    have 2: "invCount n ?u" using c by (simp add: invCount_def subscribeAll_fields)
    have 3: "invBound limit ?u" using bd by (simp add: invBound_def subscribeAll_fields)
    have 4: "invFinal n ?u" using c n True by (simp add: invFinal_def invCount_def subscribeAll_fields)
    show ?thesis unfolding u inv_def using 1 2 3 4 by blast
  next
    case False
    let ?u = "?t\<lparr>pc := AwaitAll (running s)\<rparr>"
    have u: "awaitAll s = ?u" using False by (simp add: awaitAll_def Let_def)
    have pju: "pendingJobs ?u = pendingJobs ?t" by (simp add: pendingJobs_def)
    have 1: "invQueue ?u" by (rule qa)
    have 2: "invCount n ?u" using c by (simp add: invCount_def subscribeAll_fields)
    have 3: "invBound limit ?u" using bd by (simp add: invBound_def subscribeAll_fields)
    have 4: "invFinal n ?u"
      using c n False by (auto simp: invFinal_def invCount_def subscribeAll_fields pju pj)
    show ?thesis unfolding u inv_def using 1 2 3 4 by blast
  qed
qed

subsection \<open>Every run keeps the invariant\<close>

lemma inv_step: "inv n limit s \<Longrightarrow> step n limit e s = Some s' \<Longrightarrow> inv n limit s'"
proof (cases e)
  case (Proceed b)
  assume "inv n limit s" "step n limit e s = Some s'"
  then show ?thesis
    using Proceed inv_startNext[of n limit s b] inv_awaitAll[of n limit s]
    by (auto split: if_splits)
next
  case (Settle p)
  assume "inv n limit s" "step n limit e s = Some s'"
  then show ?thesis using Settle inv_settle[of n limit s p] by (auto split: if_splits)
next
  case RunJob
  assume "inv n limit s" "step n limit e s = Some s'"
  then show ?thesis using RunJob inv_runJob[of n limit s] by (auto split: if_splits list.splits)
qed

lemma inv_runEvents:
  "inv n limit s \<Longrightarrow> runEvents n limit es s = Some s' \<Longrightarrow> inv n limit s'"
proof (induction es arbitrary: s)
  case Nil
  then show ?case by simp
next
  case (Cons e es)
  then show ?case by (auto split: option.splits dest: inv_step)
qed

lemma inv_safety:
  assumes "inv n limit s"
  shows "started s = [0..<nxt s]" "nxt s \<le> n" "pending s \<subseteq> set (running s)"
    "card (pending s) \<le> limit" "length (running s) \<le> limit"
    "pc s = Done \<Longrightarrow> nxt s = n \<and> pending s = {}"
proof -
  have c: "invCount n s" and bd: "invBound limit s" and fi: "invFinal n s"
    using assms by (simp_all add: inv_def)
  show "started s = [0..<nxt s]" "nxt s \<le> n" "pending s \<subseteq> set (running s)"
    using c by (simp_all add: invCount_def)
  show l: "length (running s) \<le> limit" using bd by (simp add: invBound_def)
  have "card (pending s) \<le> card (set (running s))"
    using c by (simp add: invCount_def card_mono)
  also have "\<dots> \<le> length (running s)" by (rule card_length)
  finally show "card (pending s) \<le> limit" using l by simp
  show "pc s = Done \<Longrightarrow> nxt s = n \<and> pending s = {}" using fi by (simp add: invFinal_def)
qed

subsection \<open>Every event uses up work\<close>

lemma work_runJob: "jobs s = j # js \<Longrightarrow> work n limit (runJob j (s\<lparr>jobs := js\<rparr>)) < work n limit s"
proof (cases j)
  case (Finally p)
  assume "jobs s = j # js"
  then show ?thesis using Finally by (simp add: work_def queued_def)
next
  case (RaceReaction r p)
  assume "jobs s = j # js"
  then show ?thesis using RaceReaction by (simp add: work_def queued_def)
next
  case (AllReaction p)
  assume "jobs s = j # js"
  then show ?thesis using AllReaction
    by (cases "pc s") (auto simp: work_def queued_def)
next
  case Resume
  assume j: "jobs s = j # js"
  show ?thesis
  proof (cases "pc s")
    case (AwaitRace r b)
    then show ?thesis using j Resume by (cases b) (simp_all add: work_def queued_def)
  next
    case (AwaitAll rest)
    then show ?thesis using j Resume by (cases rest) (simp_all add: work_def queued_def)
  qed (use j Resume in \<open>simp_all add: work_def queued_def\<close>)
qed

lemma work_settle:
  assumes "finite (pending s)" and "p \<in> pending s"
  shows "work n limit (settle p s) < work n limit s"
proof -
  have "(\<Sum>q \<in> pending s. length (reactions s q))
      = length (reactions s p) + (\<Sum>q \<in> pending s - {p}. length (reactions s q))"
    using assms by (rule sum.remove)
  moreover have "(\<Sum>q \<in> pending s - {p}. length (((reactions s)(p := [])) q))
      = (\<Sum>q \<in> pending s - {p}. length (reactions s q))"
    by (rule sum.cong) simp_all
  ultimately have "queued (settle p s) = queued s" by (simp add: queued_def settle_def)
  moreover have "card (pending s - {p}) < card (pending s)"
    using assms by (rule card_Diff1_less)
  ultimately show ?thesis by (simp add: work_def settle_def)
qed

lemma queued_subscribeAll:
  assumes "finite (pending s)" and "distinct qs"
  shows "queued (subscribeAll f qs s) = queued s + length qs"
proof -
  have "(\<Sum>p \<in> pending s. length (if p \<in> set qs \<and> p \<in> pending s then reactions s p @ [f p] else reactions s p))
      = (\<Sum>p \<in> pending s. length (reactions s p) + (if p \<in> set qs then 1 else 0))"
    by (rule sum.cong) simp_all
  also have "\<dots> = (\<Sum>p \<in> pending s. length (reactions s p)) + card (pending s \<inter> set qs)"
    using assms(1) by (simp add: sum.distrib sum.If_cases)
  finally have r: "(\<Sum>p \<in> pending s. length (if p \<in> set qs \<and> p \<in> pending s then reactions s p @ [f p] else reactions s p))
      = (\<Sum>p \<in> pending s. length (reactions s p)) + card (pending s \<inter> set qs)" .
  have "distinct (filter (\<lambda>q. q \<in> pending s) qs)" using assms(2) by simp
  then have "card (set (filter (\<lambda>q. q \<in> pending s) qs)) = length (filter (\<lambda>q. q \<in> pending s) qs)"
    by (rule distinct_card)
  moreover have "pending s \<inter> set qs = set (filter (\<lambda>q. q \<in> pending s) qs)" by auto
  ultimately have c: "card (pending s \<inter> set qs) = length (filter (\<lambda>q. q \<in> pending s) qs)"
    by metis
  have l: "length (filter (\<lambda>q. q \<in> pending s) qs) + length (filter (\<lambda>q. q \<notin> pending s) qs) = length qs"
    by (rule sum_length_filter_compl)
  show ?thesis using r c l by (simp add: queued_def subscribeAll_def)
qed

lemma queued_callTask:
  assumes "invCount n s"
  shows "queued (callTask b s) = queued s + 1"
proof -
  note f = callTask_fields[OF assms]
  have fin: "finite (pending s)" using assms by (auto simp: invCount_def intro: finite_subset)
  have new: "nxt s \<notin> pending s" using assms by (auto simp: invCount_def)
  show ?thesis
  proof (cases b)
    case True
    have "(\<Sum>p \<in> pending s. length (((reactions s)(nxt s := [])) p)) = (\<Sum>p \<in> pending s. length (reactions s p))"
      using new by (intro sum.cong) auto
    then show ?thesis using True by (simp add: queued_def f)
  next
    case False
    have "(\<Sum>p \<in> pending s. length (((reactions s)(nxt s := [Finally (nxt s)])) p)) = (\<Sum>p \<in> pending s. length (reactions s p))"
      using new by (intro sum.cong) auto
    then show ?thesis using False fin new by (simp add: queued_def f)
  qed
qed

lemma work_startNext:
  assumes "inv n limit s" and "pc s = Loop" and "nxt s < n"
  shows "work n limit (startNext limit b s) < work n limit s"
proof -
  let ?s = "callTask b s"
  have c: "invCount n s" and bd: "invBound limit s" using assms(1) by (simp_all add: inv_def)
  note f = callTask_fields[OF c]
  have c': "invCount n ?s" using c assms(3) by (rule invCount_callTask)
  have fin: "finite (pending s)" using c by (auto simp: invCount_def intro: finite_subset)
  have new: "nxt s \<notin> pending s" using c by (auto simp: invCount_def)
  have fin': "finite (pending ?s)" using c' by (auto simp: invCount_def intro: finite_subset)
  have d': "distinct (running ?s)" using c' by (simp add: invCount_def)
  have len: "length (running ?s) \<le> limit" using bd assms(2) by (simp add: invBound_def f)
  have q: "queued ?s = queued s + 1" using c by (rule queued_callTask)
  have cp: "card (pending ?s) \<le> card (pending s) + 1" using fin new by (simp add: f)
  have "n - nxt s = Suc (n - (nxt s + 1))" using assms(3) by simp
  then have "(n - nxt s) * (limit + 4) = (n - (nxt s + 1)) * (limit + 4) + (limit + 4)"
    by (simp only: mult_Suc add.commute)
  then have w: "work n limit s = (n - (nxt s + 1)) * (limit + 4) + (limit + 4) + (limit + 3) + card (pending s) + queued s"
    using assms(2) by (simp add: work_def)
  show ?thesis
  proof (cases "length (running ?s) \<ge> limit")
    case True
    have "queued (awaitRace ?s) = queued ?s + length (running ?s)"
      using queued_subscribeAll[OF fin' d', of "RaceReaction (races ?s)"]
      by (simp add: queued_def awaitRace_def)
    then have "work n limit (awaitRace ?s)
        = (n - (nxt s + 1)) * (limit + 4) + (limit + 4) + card (pending ?s) + (queued s + 1 + length (running ?s))"
      using q by (simp add: work_def awaitRace_fields f(1))
    then show ?thesis using True w cp len by (simp add: startNext_def Let_def)
  next
    case False
    have "work n limit ?s = (n - (nxt s + 1)) * (limit + 4) + (limit + 3) + card (pending ?s) + (queued s + 1)"
      using q assms(2) by (simp add: work_def f(1) f(6))
    then show ?thesis using False w cp by (simp add: startNext_def Let_def)
  qed
qed

lemma work_awaitAll:
  assumes "inv n limit s" and "pc s = Loop"
  shows "work n limit (awaitAll s) < work n limit s"
proof -
  let ?t = "subscribeAll AllReaction (running s) s"
  have c: "invCount n s" and bd: "invBound limit s" using assms(1) by (simp_all add: inv_def)
  have fin: "finite (pending s)" using c by (auto simp: invCount_def intro: finite_subset)
  have d: "distinct (running s)" using c by (simp add: invCount_def)
  have len: "length (running s) \<le> limit" using bd by (simp add: invBound_def)
  have q: "queued ?t = queued s + length (running s)" using fin d by (rule queued_subscribeAll)
  show ?thesis
  proof (cases "running s = []")
    case True
    have "queued (?t\<lparr>jobs := jobs ?t @ [Resume], pc := AwaitAll []\<rparr>) = queued ?t + 1"
      by (simp add: queued_def)
    then show ?thesis using True q assms(2)
      by (simp add: awaitAll_def Let_def work_def subscribeAll_fields)
  next
    case False
    have "queued (?t\<lparr>pc := AwaitAll (running s)\<rparr>) = queued ?t"
      by (simp add: queued_def)
    then show ?thesis using False q assms(2) len
      by (simp add: awaitAll_def Let_def work_def subscribeAll_fields)
  qed
qed

lemma work_step:
  assumes "inv n limit s" and "step n limit e s = Some s'"
  shows "work n limit s' < work n limit s"
proof (cases e)
  case (Proceed b)
  then show ?thesis
    using assms work_startNext[of n limit s b] work_awaitAll[of n limit s]
    by (auto split: if_splits)
next
  case (Settle p)
  have "finite (pending s)" using assms(1) by (auto simp: inv_def invCount_def intro: finite_subset)
  then show ?thesis using Settle assms(2) work_settle[of s p n limit] by (auto split: if_splits)
next
  case RunJob
  then show ?thesis using assms(2) work_runJob[of s _ _ n limit] by (auto split: if_splits list.splits)
qed

lemma work_runEvents:
  "inv n limit s \<Longrightarrow> runEvents n limit es s = Some s' \<Longrightarrow> length es + work n limit s' \<le> work n limit s"
proof (induction es arbitrary: s)
  case Nil
  then show ?case by simp
next
  case (Cons e es)
  from Cons.prems(2) obtain t where t: "step n limit e s = Some t" and r: "runEvents n limit es t = Some s'"
    by (auto split: option.splits)
  have "inv n limit t" using Cons.prems(1) t by (rule inv_step)
  then have "length es + work n limit s' \<le> work n limit t" using r by (rule Cons.IH)
  moreover have "work n limit t < work n limit s" using Cons.prems(1) t by (rule work_step)
  ultimately show ?case by simp
qed

lemma work_initial: "work n limit initial = n * (limit + 4) + limit + 3"
  by (simp add: work_def initial_def queued_def)

subsection \<open>No deadlock\<close>

lemma inv_enabled:
  assumes "inv n limit s" and "pc s \<noteq> Done"
  shows "\<exists>e s'. step n limit e s = Some s'"
proof (cases "pc s = Loop")
  case True
  then have "step n limit (Proceed False) s \<noteq> None" by simp
  then show ?thesis by blast
next
  case notLoop: False
  show ?thesis
  proof (cases "jobs s")
    case (Cons j js)
    then have "step n limit RunJob s \<noteq> None" using notLoop by simp
    then show ?thesis by blast
  next
    case Nil
    have bd: "invBound limit s" and fi: "invFinal n s" using assms(1) by (simp_all add: inv_def)
    have "\<exists>j. j \<in> pendingJobs s"
    proof (cases "pc s")
      case (AwaitRace r b)
      then show ?thesis using bd Nil by (cases b) (auto simp: invBound_def)
    next
      case (AwaitAll rest)
      then show ?thesis using fi Nil by (cases rest) (auto simp: invFinal_def)
    qed (use notLoop assms(2) in simp_all)
    then obtain p where "p \<in> pending s" using Nil by (auto simp: pendingJobs_def)
    then have "step n limit (Settle p) s \<noteq> None" by simp
    then show ?thesis by blast
  qed
qed

subsection \<open>The schedule\<close>

lemma exampleRun_result:
  "runEvents 3 2 exampleRun initial \<noteq> None"
  "pc (the (runEvents 3 2 exampleRun initial)) = Done"
  by (simp_all add: exampleRun_def initial_def startNext_def callTask_def awaitRace_def
      awaitAll_def subscribeAll_def settle_def Let_def)

text \<open>
  Claim C1. For every number \<open>n\<close> of tasks whose promises do not reject and every limit
  \<open>limit \<ge> 1\<close>, in every state that a run of \<open>runWithConcurrency\<close> reaches: the tasks called
  so far are the first \<open>nxt\<close> tasks, each called once, in the order of submission; the
  promises not yet settled belong to tasks that were called, and there are at most \<open>limit\<close>
  of them; when the scheduler has returned, all \<open>n\<close> tasks were called and every promise is
  settled. The scheduler does not get stuck: in every state in which it has not returned,
  some event can happen (the scheduler proceeds, a job runs, or a pending promise settles),
  and no run has more than \<open>n * (limit + 4) + limit + 3\<close> events, so that every run in
  which the pending promises settle ends with the scheduler returned.
\<close>

theorem runWithConcurrency_schedule:
  assumes "1 \<le> limit" and "runEvents n limit evs initial = Some s"
  shows "started s = [0..<nxt s] \<and> nxt s \<le> n \<and>
         pending s \<subseteq> set (started s) \<and> card (pending s) \<le> limit \<and>
         (pc s = Done \<longrightarrow> started s = [0..<n] \<and> pending s = {}) \<and>
         (pc s \<noteq> Done \<longrightarrow> (\<exists>e s'. step n limit e s = Some s')) \<and>
         length evs \<le> n * (limit + 4) + limit + 3"
proof -
  have i: "inv n limit initial" using assms(1) by (rule inv_initial)
  have s: "inv n limit s" using i assms(2) by (rule inv_runEvents)
  note safe = inv_safety[OF s]
  have c: "invCount n s" using s by (simp add: inv_def)
  have "pending s \<subseteq> set (started s)"
    using c unfolding invCount_def by auto
  moreover have "pc s = Done \<longrightarrow> started s = [0..<n] \<and> pending s = {}"
    using safe(1) safe(6) by auto
  moreover have "pc s \<noteq> Done \<longrightarrow> (\<exists>e s'. step n limit e s = Some s')"
    using s by (blast intro: inv_enabled)
  moreover have "length evs \<le> n * (limit + 4) + limit + 3"
    using work_runEvents[OF i assms(2)] by (simp add: work_initial)
  ultimately show ?thesis using safe(1) safe(2) safe(4) by blast
qed

theorem runWithConcurrency_schedule_witness:
  "(1::nat) \<le> 2 \<and> runEvents 3 2 exampleRun initial \<noteq> None \<and>
   pc (the (runEvents 3 2 exampleRun initial)) = Done \<and>
   started (the (runEvents 3 2 exampleRun initial)) = [0, 1, 2] \<and>
   pending (the (runEvents 3 2 exampleRun initial)) = {} \<and>
   length exampleRun \<le> 3 * (2 + 4) + 2 + 3"
proof -
  have l: "(1::nat) \<le> 2" by simp
  have r: "runEvents 3 2 exampleRun initial = Some (the (runEvents 3 2 exampleRun initial))"
    using exampleRun_result(1) by simp
  have u: "[0..<3] = [0, 1, 2]" by (simp add: upt_rec)
  note t = runWithConcurrency_schedule[OF l r]
  from t have "pc (the (runEvents 3 2 exampleRun initial)) = Done \<longrightarrow>
      started (the (runEvents 3 2 exampleRun initial)) = [0..<3] \<and>
      pending (the (runEvents 3 2 exampleRun initial)) = {}"
    and b: "length exampleRun \<le> 3 * (2 + 4) + 2 + 3"
    by blast+
  then have "started (the (runEvents 3 2 exampleRun initial)) = [0, 1, 2]"
    and "pending (the (runEvents 3 2 exampleRun initial)) = {}"
    using exampleRun_result(2) unfolding u by blast+
  then show ?thesis using l b exampleRun_result by blast
qed

section \<open>Properties of the run\<close>

subsection \<open>The limit\<close>

text \<open>With the limit 0 the scheduler awaits a race after every call, as with the limit 1.\<close>

lemma step_limit: "step n limit e s = step n (max 1 limit) e s"
proof (cases "limit = 0")
  case True
  have "startNext 0 b s = startNext (Suc 0) b s" for b
    by (simp add: startNext_def callTask_def Let_def subscribeAll_def)
  then show ?thesis using True by (cases e) simp_all
next
  case False
  then have "max 1 limit = limit" by simp
  then show ?thesis by simp
qed

lemma runStep_limit:
  "runStep fetch us folder limit e c = runStep fetch us folder (max 1 limit) e c"
proof (cases e)
  case SchedulerRuns
  show ?thesis unfolding SchedulerRuns runStep.simps by (subst step_limit) (rule refl)
next
  case JobRuns
  show ?thesis unfolding JobRuns runStep.simps by (subst step_limit) (rule refl)
next
  case (TaskRuns i)
  show ?thesis unfolding TaskRuns runStep.simps by (subst step_limit) (rule refl)
qed

lemma runOccurrences_limit:
  "runOccurrences fetch us folder limit es c = runOccurrences fetch us folder (max 1 limit) es c"
proof (induction es arbitrary: c)
  case Nil
  show ?case by simp
next
  case (Cons e es)
  have s: "runStep fetch us folder limit e c = runStep fetch us folder (max 1 limit) e c"
    by (rule runStep_limit)
  show ?case unfolding runOccurrences.simps s using Cons.IH by (simp split: option.splits)
qed

subsection \<open>What an occurrence does\<close>

lemma step_Proceed:
  assumes "step n limit (Proceed b) s = Some s'"
  shows "pc s = Loop"
    and "nxt s' = (if nxt s < n then nxt s + 1 else nxt s)"
    and "pending s' = (if nxt s < n then (if b then pending s else insert (nxt s) (pending s)) else pending s)"
  using assms
  by (auto simp: startNext_def callTask_def awaitRace_def awaitAll_def subscribeAll_def Let_def
      split: if_splits)

lemma step_RunJob:
  assumes "step n limit RunJob s = Some s'"
  shows "nxt s' = nxt s" and "pending s' = pending s"
proof -
  from assms obtain j js where j: "jobs s = j # js" and s': "s' = runJob j (s\<lparr>jobs := js\<rparr>)"
    by (auto split: if_splits list.splits)
  have "nxt (runJob j t) = nxt t \<and> pending (runJob j t) = pending t" for t
    by (cases j) (auto split: pc.splits list.splits bool.splits)
  then show "nxt s' = nxt s" and "pending s' = pending s" by (simp_all add: s')
qed

lemma step_Settle:
  assumes "step n limit (Settle p) s = Some s'"
  shows "p \<in> pending s" and "nxt s' = nxt s" and "pending s' = pending s - {p}"
  using assms by (auto simp: settle_def split: if_splits)

lemma runStep_SchedulerRuns:
  assumes "runStep fetch us folder limit SchedulerRuns c = Some c'"
  shows "step (length us) limit (Proceed False) (sch c) = Some (sch c')"
    and "phases c' = (if nxt (sch c) < length us then (phases c)[nxt (sch c) := Fetching 0] else phases c)"
    and "wld c' = wld c"
  using assms by (auto split: option.splits if_splits)

lemma runStep_JobRuns:
  assumes "runStep fetch us folder limit JobRuns c = Some c'"
  shows "step (length us) limit RunJob (sch c) = Some (sch c')"
    and "phases c' = phases c" and "wld c' = wld c"
  using assms by (auto split: option.splits if_splits list.splits)

lemma runStep_TaskRuns:
  assumes "runStep fetch us folder limit (TaskRuns i) c = Some c'"
  obtains ph w where "i < length us" and "i < length (phases c)" and "active (phases c ! i)"
    and "advance fetch (us ! i) i folder (phases c ! i) (wld c) = (ph, w)"
    and "phases c' = (phases c)[i := ph]" and "wld c' = w"
    and "ph = Finished \<Longrightarrow> step (length us) limit (Settle i) (sch c) = Some (sch c')"
    and "ph \<noteq> Finished \<Longrightarrow> sch c' = sch c"
proof -
  obtain ph w where a: "advance fetch (us ! i) i folder (phases c ! i) (wld c) = (ph, w)"
    by (cases "advance fetch (us ! i) i folder (phases c ! i) (wld c)")
  show ?thesis
    by (rule that[of ph w]) (use assms a in \<open>auto simp: active_def split: if_splits option.splits\<close>)
qed

lemma advance_not_Idle:
  "advance fetch u i folder ph w = (ph', w') \<Longrightarrow> active ph \<Longrightarrow> ph' \<noteq> Idle"
  by (cases ph) (auto simp: active_def attemptFails_def split: prod.splits sum.splits if_splits)

subsection \<open>The scheduler and the tasks stay in step\<close>

lemma coupled_start: "coupled (length us) (startOfRun us w)"
  by (simp add: coupled_def startOfRun_def initial_def active_def)

lemma coupled_runStep:
  assumes "coupled (length us) c" and "runStep fetch us folder limit e c = Some c'"
  shows "coupled (length us) c'"
proof (cases e)
  case SchedulerRuns
  note r = runStep_SchedulerRuns[OF assms(2)[unfolded SchedulerRuns]]
  note s = step_Proceed[OF r(1)]
  show ?thesis
  proof (cases "nxt (sch c) < length us")
    case True
    have "(phases c' ! j = Idle \<longleftrightarrow> nxt (sch c') \<le> j) \<and> (active (phases c' ! j) \<longleftrightarrow> j \<in> pending (sch c'))"
      if "j < length us" for j
    proof (cases "j = nxt (sch c)")
      case True
      then show ?thesis using assms(1) that r(2) s(2,3) by (simp add: coupled_def active_def)
    next
      case False
      then show ?thesis using assms(1) that r(2) s(2,3) True by (auto simp: coupled_def)
    qed
    then show ?thesis using assms(1) r(2) by (simp add: coupled_def)
  next
    case False
    then show ?thesis using assms(1) r(2) s(2,3) by (simp add: coupled_def)
  qed
next
  case JobRuns
  note r = runStep_JobRuns[OF assms(2)[unfolded JobRuns]]
  note s = step_RunJob[OF r(1)]
  show ?thesis using assms(1) r(2) s by (simp add: coupled_def)
next
  case (TaskRuns i)
  from assms(2)[unfolded TaskRuns] show ?thesis
  proof (rule runStep_TaskRuns)
    fix ph w
    assume h: "i < length us" "active (phases c ! i)"
      "advance fetch (us ! i) i folder (phases c ! i) (wld c) = (ph, w)"
      "phases c' = (phases c)[i := ph]"
      "ph = Finished \<Longrightarrow> step (length us) limit (Settle i) (sch c) = Some (sch c')"
      "ph \<noteq> Finished \<Longrightarrow> sch c' = sch c"
    have ni: "ph \<noteq> Idle" using h(3,2) by (rule advance_not_Idle)
    have len: "length (phases c) = length us" using assms(1) by (simp add: coupled_def)
    show ?thesis
    proof (cases "ph = Finished")
      case True
      note s = step_Settle[OF h(5)[OF True]]
      have "(phases c' ! j = Idle \<longleftrightarrow> nxt (sch c') \<le> j) \<and> (active (phases c' ! j) \<longleftrightarrow> j \<in> pending (sch c'))"
        if "j < length us" for j
      proof (cases "j = i")
        case j: True
        have "\<not> nxt (sch c) \<le> i" using assms(1) h(1,2) by (auto simp: coupled_def active_def)
        then show ?thesis using j True h(1,4) s len by (simp add: active_def)
      next
        case False
        then show ?thesis using assms(1) that h(4) s by (auto simp: coupled_def)
      qed
      then show ?thesis using len h(4) by (simp add: coupled_def)
    next
      case False
      have "(phases c' ! j = Idle \<longleftrightarrow> nxt (sch c') \<le> j) \<and> (active (phases c' ! j) \<longleftrightarrow> j \<in> pending (sch c'))"
        if "j < length us" for j
      proof (cases "j = i")
        case j: True
        have "\<not> nxt (sch c) \<le> i" "i \<in> pending (sch c)"
          using assms(1) h(1,2) by (auto simp: coupled_def active_def)
        then show ?thesis using j False ni h(1,4) h(6)[OF False] len by (simp add: active_def)
      next
        case False
        then show ?thesis using assms(1) that h(4) h(6)[OF \<open>ph \<noteq> Finished\<close>] by (auto simp: coupled_def)
      qed
      then show ?thesis using len h(4) by (simp add: coupled_def)
    qed
  qed
qed

lemma inv_runStep:
  assumes "inv (length us) limit (sch c)" and "runStep fetch us folder limit e c = Some c'"
  shows "inv (length us) limit (sch c')"
proof (cases e)
  case SchedulerRuns
  show ?thesis
    using assms(1) runStep_SchedulerRuns(1)[OF assms(2)[unfolded SchedulerRuns]] by (rule inv_step)
next
  case JobRuns
  show ?thesis
    using assms(1) runStep_JobRuns(1)[OF assms(2)[unfolded JobRuns]] by (rule inv_step)
next
  case (TaskRuns i)
  from assms(2)[unfolded TaskRuns] show ?thesis
  proof (rule runStep_TaskRuns)
    fix ph w
    assume h: "ph = Finished \<Longrightarrow> step (length us) limit (Settle i) (sch c) = Some (sch c')"
      "ph \<noteq> Finished \<Longrightarrow> sch c' = sch c"
    show ?thesis
    proof (cases "ph = Finished")
      case True
      show ?thesis using assms(1) h(1)[OF True] by (rule inv_step)
    next
      case False
      then show ?thesis using assms(1) h(2) by simp
    qed
  qed
qed

lemma run_invariant:
  assumes "inv (length us) limit (sch c)" and "coupled (length us) c"
    and "runOccurrences fetch us folder limit es c = Some c'"
  shows "inv (length us) limit (sch c') \<and> coupled (length us) c'"
  using assms
proof (induction es arbitrary: c)
  case Nil
  then show ?case by simp
next
  case (Cons e es)
  from Cons.prems(3) obtain c1 where s: "runStep fetch us folder limit e c = Some c1"
    and r: "runOccurrences fetch us folder limit es c1 = Some c'"
    by (auto split: option.splits)
  show ?case
    by (rule Cons.IH[OF inv_runStep[OF Cons.prems(1) s] coupled_runStep[OF Cons.prems(2) s] r])
qed

lemma all_Finished:
  assumes "inv (length us) limit (sch c)" and "coupled (length us) c" and "pc (sch c) = Done"
    and "j < length us"
  shows "phases c ! j = Finished"
proof -
  have "nxt (sch c) = length us" "pending (sch c) = {}"
    using inv_safety(6)[OF assms(1)] assms(3) by simp_all
  then show ?thesis using assms(2,4) by (auto simp: coupled_def active_def)
qed

subsection \<open>Every run comes to its end\<close>

lemma effort_advance:
  assumes "advance fetch u i folder ph w = (ph', w')" and "active ph"
  shows "effort ph' < effort ph"
proof (cases ph)
  case (Fetching k)
  then show ?thesis using assms(1)
    by (auto simp: attemptFails_def split: prod.splits sum.splits if_splits)
next
  case (Writing k b)
  then show ?thesis using assms(1)
    by (auto simp: attemptFails_def split: prod.splits sum.splits if_splits)
qed (use assms(2) in \<open>simp_all add: active_def\<close>)

lemma sum_list_effort_update:
  assumes "i < length phs"
  shows "sum_list (map effort (phs[i := ph])) + effort (phs ! i) = sum_list (map effort phs) + effort ph"
  using assms
proof (induction phs arbitrary: i)
  case Nil
  then show ?case by simp
next
  case (Cons p ps)
  show ?case
  proof (cases i)
    case 0
    then show ?thesis by simp
  next
    case (Suc k)
    then show ?thesis using Cons.IH[of k] Cons.prems by simp
  qed
qed

lemma workLeft_runStep:
  assumes "inv (length us) limit (sch c)" and "coupled (length us) c"
    and "runStep fetch us folder limit e c = Some c'"
  shows "workLeft (length us) limit c' < workLeft (length us) limit c"
proof (cases e)
  case SchedulerRuns
  note r = runStep_SchedulerRuns[OF assms(3)[unfolded SchedulerRuns]]
  have w: "work (length us) limit (sch c') < work (length us) limit (sch c)"
    using assms(1) r(1) by (rule work_step)
  have "sum_list (map effort (phases c')) = sum_list (map effort (phases c))"
  proof (cases "nxt (sch c) < length us")
    case True
    have "phases c ! nxt (sch c) = Idle" "nxt (sch c) < length (phases c)"
      using assms(2) True by (auto simp: coupled_def)
    then show ?thesis
      using sum_list_effort_update[of "nxt (sch c)" "phases c" "Fetching 0"] r(2) True by simp
  next
    case False
    then show ?thesis using r(2) by simp
  qed
  then show ?thesis using w by (simp add: workLeft_def)
next
  case JobRuns
  note r = runStep_JobRuns[OF assms(3)[unfolded JobRuns]]
  have "work (length us) limit (sch c') < work (length us) limit (sch c)"
    using assms(1) r(1) by (rule work_step)
  then show ?thesis using r(2) by (simp add: workLeft_def)
next
  case (TaskRuns i)
  from assms(3)[unfolded TaskRuns] show ?thesis
  proof (rule runStep_TaskRuns)
    fix ph w
    assume h: "i < length (phases c)" "active (phases c ! i)"
      "advance fetch (us ! i) i folder (phases c ! i) (wld c) = (ph, w)"
      "phases c' = (phases c)[i := ph]"
      "ph = Finished \<Longrightarrow> step (length us) limit (Settle i) (sch c) = Some (sch c')"
      "ph \<noteq> Finished \<Longrightarrow> sch c' = sch c"
    have "effort ph < effort (phases c ! i)" using h(3,2) by (rule effort_advance)
    then have e: "sum_list (map effort (phases c')) < sum_list (map effort (phases c))"
      using sum_list_effort_update[OF h(1), of ph] h(4) by simp
    have "work (length us) limit (sch c') \<le> work (length us) limit (sch c)"
    proof (cases "ph = Finished")
      case True
      show ?thesis using work_step[OF assms(1) h(5)[OF True]] by simp
    next
      case False
      then show ?thesis using h(6) by simp
    qed
    then show ?thesis using e by (simp add: workLeft_def)
  qed
qed

text \<open>
  As long as \<open>runWithConcurrency\<close> has not returned, something can happen: the scheduler
  can run, or a job, or a task whose promise is pending.
\<close>

lemma runStep_enabled:
  assumes "inv (length us) limit (sch c)" and "coupled (length us) c" and "pc (sch c) \<noteq> Done"
  shows "\<exists>e c'. runStep fetch us folder limit e c = Some c'"
proof -
  from inv_enabled[OF assms(1,3)] obtain e s' where s: "step (length us) limit e (sch c) = Some s'"
    by blast
  show ?thesis
  proof (cases e)
    case (Proceed b)
    then have "pc (sch c) = Loop" using s by (auto split: if_splits)
    then have "runStep fetch us folder limit SchedulerRuns c \<noteq> None" by simp
    then show ?thesis by blast
  next
    case RunJob
    then have "runStep fetch us folder limit JobRuns c \<noteq> None" using s by simp
    then show ?thesis by blast
  next
    case (Settle p)
    then have p: "p \<in> pending (sch c)" using s by (auto split: if_splits)
    have "invCount (length us) (sch c)" using assms(1) by (simp add: inv_def)
    then have "p < nxt (sch c)" "nxt (sch c) \<le> length us"
      using p unfolding invCount_def by auto
    then have l: "p < length us" by simp
    then have a: "p < length (phases c)" "phases c ! p \<noteq> Idle" "phases c ! p \<noteq> Finished"
      using assms(2) p by (auto simp: coupled_def active_def)
    obtain ph w where ad: "advance fetch (us ! p) p folder (phases c ! p) (wld c) = (ph, w)"
      by (cases "advance fetch (us ! p) p folder (phases c ! p) (wld c)")
    have st: "step (length us) limit (Settle p) (sch c) = Some (settle p (sch c))"
      using p by simp
    have "runStep fetch us folder limit (TaskRuns p) c \<noteq> None"
      unfolding runStep.simps ad st using l a by simp
    then show ?thesis by blast
  qed
qed

lemma run_completes:
  assumes "inv (length us) limit (sch c)" and "coupled (length us) c"
  shows "\<exists>es c'. runOccurrences fetch us folder limit es c = Some c' \<and> pc (sch c') = Done"
  using assms
proof (induction "workLeft (length us) limit c" arbitrary: c rule: less_induct)
  case less
  show ?case
  proof (cases "pc (sch c) = Done")
    case True
    then have "runOccurrences fetch us folder limit [] c = Some c \<and> pc (sch c) = Done" by simp
    then show ?thesis by blast
  next
    case False
    from runStep_enabled[OF less.prems False] obtain e c1 where
      s: "runStep fetch us folder limit e c = Some c1" by blast
    have "\<exists>es c'. runOccurrences fetch us folder limit es c1 = Some c' \<and> pc (sch c') = Done"
      by (rule less.hyps[OF workLeft_runStep[OF less.prems s] inv_runStep[OF less.prems(1) s]
            coupled_runStep[OF less.prems(2) s]])
    then obtain es c' where "runOccurrences fetch us folder limit es c1 = Some c'" "pc (sch c') = Done"
      by blast
    then have "runOccurrences fetch us folder limit (e # es) c = Some c' \<and> pc (sch c') = Done"
      using s by simp
    then show ?thesis by blast
  qed
qed

lemma runWithConcurrency_completes:
  "\<exists>schedule w'. runWithConcurrency fetch us folder limit schedule w = Some w'"
proof -
  have i: "inv (length us) (max 1 limit) (sch (startOfRun us w))"
    by (simp add: startOfRun_def inv_initial)
  from run_completes[OF i coupled_start, of fetch folder] obtain es c' where
    "runOccurrences fetch us folder (max 1 limit) es (startOfRun us w) = Some c'" "pc (sch c') = Done"
    by blast
  then have "runWithConcurrency fetch us folder limit es w = Some (wld c')"
    by (simp add: runWithConcurrency_def runOccurrences_limit[of _ _ _ limit])
  then show ?thesis by blast
qed

text \<open>When \<open>runWithConcurrency\<close> has returned, every task is over.\<close>

lemma runWithConcurrency_end:
  assumes "runWithConcurrency fetch us folder limit schedule w = Some w'"
  obtains c where "runOccurrences fetch us folder (max 1 limit) schedule (startOfRun us w) = Some c"
    and "wld c = w'" and "\<forall>j < length us. phases c ! j = Finished"
proof -
  from assms obtain c where r: "runOccurrences fetch us folder (max 1 limit) schedule (startOfRun us w) = Some c"
    and d: "pc (sch c) = Done" and w: "wld c = w'"
    by (auto simp: runWithConcurrency_def runOccurrences_limit[of _ _ _ limit] split: option.splits if_splits)
  have i: "inv (length us) (max 1 limit) (sch (startOfRun us w))"
    by (simp add: startOfRun_def inv_initial)
  from run_invariant[OF i coupled_start r] have "inv (length us) (max 1 limit) (sch c)" "coupled (length us) c"
    by simp_all
  then have "\<forall>j < length us. phases c ! j = Finished"
    using d by (auto intro: all_Finished)
  then show ?thesis using r w that by blast
qed

subsection \<open>What the tasks leave of the world\<close>

lemma tasksOnly_refl: "tasksOnly folder w w"
  by (simp add: tasksOnly_def)

lemma tasksOnly_attemptFails:
  assumes "tasksOnly folder w0 w" and "attemptFails u k e w = (ph, w')"
  shows "tasksOnly folder w0 w'"
proof -
  from assms(1) obtain logs where l: "console w = console w0 @ logs"
    "\<forall>l \<in> set logs. \<exists>u msg. l = DownloadFailed u msg"
    by (auto simp: tasksOnly_def)
  have "w' = w \<or> (\<exists>msg. w' = w\<lparr>console := console w @ [DownloadFailed u msg]\<rparr>)"
    using assms(2) by (auto simp: attemptFails_def split: if_splits js_error.splits)
  then show ?thesis
  proof
    assume "w' = w"
    then show ?thesis using assms(1) by simp
  next
    assume "\<exists>msg. w' = w\<lparr>console := console w @ [DownloadFailed u msg]\<rparr>"
    then obtain msg where w': "w' = w\<lparr>console := console w @ [DownloadFailed u msg]\<rparr>" by blast
    have "console w' = console w0 @ (logs @ [DownloadFailed u msg]) \<and>
        (\<forall>l \<in> set (logs @ [DownloadFailed u msg]). \<exists>u msg. l = DownloadFailed u msg)"
      using l by (auto simp: w')
    then have "\<exists>logs. console w' = console w0 @ logs \<and> (\<forall>l \<in> set logs. \<exists>u msg. l = DownloadFailed u msg)"
      by blast
    then show ?thesis using assms(1) by (simp add: tasksOnly_def w')
  qed
qed

lemma tasksOnly_net: "tasksOnly folder w0 w \<Longrightarrow> tasksOnly folder w0 (w\<lparr>net := n\<rparr>)"
  by (simp add: tasksOnly_def)

lemma tasksOnly_writeFile:
  assumes "tasksOnly folder w0 w" and "writeFile (pathJoin folder f) buffer w = (r, w')"
  shows "tasksOnly folder w0 w'"
  using assms
  by (auto simp: tasksOnly_def writeFile_def openForWriting_def appendBytes_def pathJoin_def
      dirname_def basename_def update_conv' split: option.splits entry.splits)

lemma tasksOnly_advance:
  assumes "tasksOnly folder w0 w" and "advance fetch u i folder ph w = (ph', w')"
  shows "tasksOnly folder w0 w'"
proof (cases ph)
  case (Fetching k)
  show ?thesis
  proof (cases "k \<le> 3")
    case True
    obtain a n' where f: "fetch u (net w) = (a, n')" by (cases "fetch u (net w)")
    note n = tasksOnly_net[OF assms(1), of n']
    show ?thesis
    proof (cases "\<exists>res. a = Inr res \<and> ok res")
      case ok: True
      then show ?thesis using assms(2) Fetching True f n by auto
    next
      case False
      then obtain e where "attemptFails u k e (w\<lparr>net := n'\<rparr>) = (ph', w')"
        using assms(2) Fetching True f by (auto split: sum.splits if_splits)
      with n show ?thesis by (rule tasksOnly_attemptFails)
    qed
  next
    case False
    then have w': "w' = w\<lparr>console := console w @ [DownloadFailed u ''Unexpected retry failure'']\<rparr>"
      using assms(2) Fetching by simp
    from assms(1) obtain logs where l: "console w = console w0 @ logs"
      "\<forall>l \<in> set logs. \<exists>u msg. l = DownloadFailed u msg"
      by (auto simp: tasksOnly_def)
    have "console w' = console w0 @ (logs @ [DownloadFailed u ''Unexpected retry failure'']) \<and>
        (\<forall>l \<in> set (logs @ [DownloadFailed u ''Unexpected retry failure'']). \<exists>u msg. l = DownloadFailed u msg)"
      using l by (auto simp: w')
    then have "\<exists>logs. console w' = console w0 @ logs \<and> (\<forall>l \<in> set logs. \<exists>u msg. l = DownloadFailed u msg)"
      by blast
    then show ?thesis using assms(1) by (simp add: tasksOnly_def w')
  qed
next
  case (Writing k b)
  obtain r w1 where wf: "writeFile (pathJoin folder (segmentFileName i)) b w = (r, w1)"
    by (cases "writeFile (pathJoin folder (segmentFileName i)) b w")
  note t = tasksOnly_writeFile[OF assms(1) wf]
  show ?thesis
  proof (cases r)
    case (Inl e)
    then have "attemptFails u k e w1 = (ph', w')" using assms(2) Writing wf by simp
    with t show ?thesis by (rule tasksOnly_attemptFails)
  next
    case (Inr x)
    then have "w' = w1\<lparr>progress := progress w1 + 1\<rparr>" using assms(2) Writing wf by simp
    then show ?thesis using t by (simp add: tasksOnly_def)
  qed
qed (use assms in simp_all)

lemma tasksOnly_runStep:
  assumes "tasksOnly folder w0 (wld c)" and "runStep fetch us folder limit e c = Some c'"
  shows "tasksOnly folder w0 (wld c')"
proof (cases e)
  case SchedulerRuns
  show ?thesis using assms(1) runStep_SchedulerRuns(3)[OF assms(2)[unfolded SchedulerRuns]] by simp
next
  case JobRuns
  show ?thesis using assms(1) runStep_JobRuns(3)[OF assms(2)[unfolded JobRuns]] by simp
next
  case (TaskRuns i)
  from assms(2)[unfolded TaskRuns] show ?thesis
  proof (rule runStep_TaskRuns)
    fix ph w
    assume "advance fetch (us ! i) i folder (phases c ! i) (wld c) = (ph, w)" "wld c' = w"
    then show ?thesis using tasksOnly_advance[OF assms(1)] by simp
  qed
qed

lemma tasksOnly_runOccurrences:
  assumes "tasksOnly folder w0 (wld c)" and "runOccurrences fetch us folder limit es c = Some c'"
  shows "tasksOnly folder w0 (wld c')"
  using assms
proof (induction es arbitrary: c)
  case Nil
  then show ?case by simp
next
  case (Cons e es)
  from Cons.prems(2) obtain c1 where s: "runStep fetch us folder limit e c = Some c1"
    and r: "runOccurrences fetch us folder limit es c1 = Some c'"
    by (auto split: option.splits)
  show ?case by (rule Cons.IH[OF tasksOnly_runStep[OF Cons.prems(1) s] r])
qed

lemma tasksOnly_runWithConcurrency:
  assumes "runWithConcurrency fetch us folder limit schedule w = Some w'"
  shows "tasksOnly folder w w'"
proof -
  from assms obtain c where r: "runOccurrences fetch us folder limit schedule (startOfRun us w) = Some c"
    and w: "wld c = w'"
    by (auto simp: runWithConcurrency_def split: option.splits if_splits)
  have "tasksOnly folder w (wld (startOfRun us w))" by (simp add: startOfRun_def tasksOnly_refl)
  from tasksOnly_runOccurrences[OF this r] show ?thesis by (simp add: w)
qed

subsection \<open>The workspace when the assembly has completed\<close>

lemma onNet_net: "onNet f w = (r, w') \<Longrightarrow> w' = w\<lparr>net := net w'\<rparr>"
  by (auto simp: onNet_def split: prod.splits)

lemma resolveSegments_net:
  assumes "resolveSegments fetch prompt m3u8Url w0 = (r, w)"
  shows "w = w0\<lparr>net := net w\<rparr>"
proof -
  have t: "c = a\<lparr>net := net c\<rparr>" if "b = a\<lparr>net := net b\<rparr>" "c = b\<lparr>net := net c\<rparr>" for a b c :: "'a world"
    by (subst that(2), subst that(1)) simp
  obtain r1 w1 where 1: "onNet (isMasterPlaylist fetch m3u8Url) w0 = (r1, w1)"
    by (cases "onNet (isMasterPlaylist fetch m3u8Url) w0")
  note n1 = onNet_net[OF 1]
  show ?thesis
  proof (cases r1)
    case (Inl e)
    then show ?thesis using assms 1 n1 by (simp add: resolveSegments_def andThen_def)
  next
    case (Inr master)
    obtain r2 w2 where 2: "(if master then onNet (chooseM3u8 fetch prompt m3u8Url) else (\<lambda>w. (Inr m3u8Url, w))) w1 = (r2, w2)"
      by (cases "(if master then onNet (chooseM3u8 fetch prompt m3u8Url) else (\<lambda>w. (Inr m3u8Url, w))) w1")
    have n2: "w2 = w1\<lparr>net := net w2\<rparr>"
      using 2 onNet_net[of "chooseM3u8 fetch prompt m3u8Url" w1 r2 w2] by (auto split: if_splits)
    show ?thesis
    proof (cases r2)
      case (Inl e)
      then have "w = w2" using assms 1 2 Inr by (simp add: resolveSegments_def andThen_def)
      then show ?thesis using t[OF n1 n2] by simp
    next
      case leaf: (Inr leafUrl)
      then have "onNet (parseM3u8 fetch leafUrl) w2 = (r, w)"
        using assms 1 2 Inr by (simp add: resolveSegments_def andThen_def)
      from onNet_net[OF this] show ?thesis using t[OF t[OF n1 n2]] by simp
    qed
  qed
qed

lemma fsOnly_refl: "fsOnly w w"
  by (simp add: fsOnly_def)

lemma fsOnly_trans: "fsOnly a b \<Longrightarrow> fsOnly b c \<Longrightarrow> fsOnly a c"
  by (simp add: fsOnly_def)

lemma fsOnly_appendBytes: "fsOnly w (appendBytes p bytes w)"
  by (auto simp: fsOnly_def appendBytes_def split: option.splits entry.splits)

lemma fsOnly_openForWriting: "openForWriting p w = (r, w') \<Longrightarrow> fsOnly w w'"
  by (auto simp: fsOnly_def openForWriting_def split: option.splits entry.splits)

lemma fsOnly_mkdir: "mkdir d w = (r, w') \<Longrightarrow> fsOnly w w'"
  by (auto simp: fsOnly_def mkdir_def mkdirSync_def split: option.splits if_splits)

lemma fsOnly_foldl_writeChunk: "fsOnly w (foldl (writeChunk out) w chunks)"
proof (induction chunks arbitrary: w)
  case Nil
  show ?case by (simp add: fsOnly_refl)
next
  case (Cons c cs)
  have "fsOnly w (writeChunk out w c)" by (simp add: writeChunk_def fsOnly_appendBytes)
  then show ?case using Cons.IH[of "writeChunk out w c"] by (auto intro: fsOnly_trans)
qed

lemma fsOnly_mergeLoop: "mergeLoop folder out files w = (r, w') \<Longrightarrow> fsOnly w w'"
proof (induction files arbitrary: w)
  case Nil
  then show ?case by (simp add: fsOnly_refl)
next
  case (Cons f fs)
  obtain chunks e where c: "createReadStream (pathJoin folder f) w = (chunks, e)"
    by (cases "createReadStream (pathJoin folder f) w")
  note a = fsOnly_foldl_writeChunk[of w out chunks]
  show ?case
  proof (cases e)
    case None
    then have "mergeLoop folder out fs (foldl (writeChunk out) w chunks) = (r, w')"
      using Cons.prems c by simp
    from Cons.IH[OF this] a show ?thesis by (rule fsOnly_trans[rotated])
  next
    case (Some x)
    then have "w' = foldl (writeChunk out) w chunks" using Cons.prems c by simp
    then show ?thesis using a by simp
  qed
qed

lemma mergeTsFiles_fsOnly:
  assumes "mergeTsFiles folder out w = (r, w')"
  shows "fsOnly w w' \<or> (r = Inr () \<and> w' = w\<lparr>console := console w @ [NoTsFilesFound]\<rparr>)"
proof (cases "dirs w folder")
  case None
  then show ?thesis using assms by (simp add: mergeTsFiles_def readdir_def fsOnly_refl)
next
  case (Some es)
  let ?kept = "sort (filter (\<lambda>f. endsWith f ''.ts'') (map fst es))"
  note u = mergeTsFiles_unfold[OF Some, of out, unfolded Let_def]
  show ?thesis
  proof (cases "?kept = []")
    case True
    then show ?thesis using assms u by simp
  next
    case False
    obtain r1 w1 where 1: "mkdir (dirname out) w = (r1, w1)" by (cases "mkdir (dirname out) w")
    note f1 = fsOnly_mkdir[OF 1]
    show ?thesis
    proof (cases r1)
      case (Inl e)
      then show ?thesis using assms u False 1 f1 by (simp add: andThen_def)
    next
      case (Inr x)
      obtain r2 w2 where 2: "createWriteStream out w1 = (r2, w2)" by (cases "createWriteStream out w1")
      have f2: "fsOnly w w2"
        using f1 fsOnly_openForWriting[OF 2[unfolded createWriteStream_def]] by (rule fsOnly_trans)
      show ?thesis
      proof (cases r2)
        case (Inl e)
        then show ?thesis using assms u False 1 2 Inr f2 by (simp add: andThen_def)
      next
        case ok: (Inr y)
        then have "mergeLoop folder out ?kept w2 = (r, w')"
          using assms u False 1 2 Inr by (simp add: andThen_def)
        from fsOnly_mergeLoop[OF this] f2 show ?thesis by (auto intro: fsOnly_trans)
      qed
    qed
  qed
qed

text \<open>
  The stages of \<open>fetchAndMerge\<close>: the locators, the temporary folder, the tasks, the
  assembly.
\<close>

lemma fetchAndMerge_unfold:
  "fetchAndMerge fetch prompt m3u8Url limit out schedule w0 =
     (case resolveSegments fetch prompt m3u8Url w0 of
        (Inl e, w) \<Rightarrow> Some (Inl e, w)
      | (Inr us, w) \<Rightarrow>
          (case (if \<not> existsSync (workspaceOf w) w then mkdirSync (workspaceOf w) w else (Inr (), w)) of
             (Inl e, w1) \<Rightarrow> Some (Inl e, w1)
           | (Inr u, w1) \<Rightarrow>
               (case runWithConcurrency fetch us (workspaceOf w) limit schedule (w1\<lparr>progress := 0\<rparr>) of
                  None \<Rightarrow> None
                | Some w2 \<Rightarrow>
                    Some (andThen (consoleLog MergeStarted) (\<lambda>u.
                          andThen (mergeTsFiles (workspaceOf w) out) (\<lambda>u.
                          andThen (consoleLog (VideoSaved out)) (\<lambda>u w'.
                          (Inr (workspaceOf w), w')))) w2))))"
  unfolding fetchAndMerge_def Let_def workspaceOf_def by (rule refl)

lemma fetchAndMerge_stages:
  assumes "fetchAndMerge fetch prompt m3u8Url limit out schedule w0 = Some (Inr folder, w5)"
  obtains us w1 w2 w3 w4 where "resolveSegments fetch prompt m3u8Url w0 = (Inr us, w1)"
    and "folder = workspaceOf w0"
    and "(if \<not> existsSync folder w1 then mkdirSync folder w1 else (Inr (), w1)) = (Inr (), w2)"
    and "runWithConcurrency fetch us folder limit schedule (w2\<lparr>progress := 0\<rparr>) = Some w3"
    and "mergeTsFiles folder out (w3\<lparr>console := console w3 @ [MergeStarted]\<rparr>) = (Inr (), w4)"
    and "w5 = w4\<lparr>console := console w4 @ [VideoSaved out]\<rparr>"
proof -
  obtain r1 w1 where 1: "resolveSegments fetch prompt m3u8Url w0 = (r1, w1)"
    by (cases "resolveSegments fetch prompt m3u8Url w0")
  then obtain us where r1: "r1 = Inr us"
    using assms by (cases r1) (simp_all add: fetchAndMerge_def)
  have c: "clock w1 = clock w0" by (subst resolveSegments_net[OF 1]) simp
  let ?tmp = "workspaceOf w1"
  have tmp: "?tmp = workspaceOf w0" by (simp add: c workspaceOf_def)
  obtain r2 w2 where 2: "(if \<not> existsSync ?tmp w1 then mkdirSync ?tmp w1 else (Inr (), w1)) = (r2, w2)"
    by (cases "(if \<not> existsSync ?tmp w1 then mkdirSync ?tmp w1 else (Inr (), w1))")
  have a: "fetchAndMerge fetch prompt m3u8Url limit out schedule w0 =
      (case r2 of Inl e \<Rightarrow> Some (Inl e, w2)
       | Inr u \<Rightarrow>
           (case runWithConcurrency fetch us ?tmp limit schedule (w2\<lparr>progress := 0\<rparr>) of
              None \<Rightarrow> None
            | Some w3 \<Rightarrow>
                Some (andThen (consoleLog MergeStarted) (\<lambda>u.
                      andThen (mergeTsFiles ?tmp out) (\<lambda>u.
                      andThen (consoleLog (VideoSaved out)) (\<lambda>u w.
                      (Inr ?tmp, w)))) w3)))"
    unfolding fetchAndMerge_unfold 1 r1 prod.case sum.case 2 by (simp split: sum.splits)
  then have r2: "r2 = Inr ()" using assms by (cases r2) simp_all
  obtain w3 where 3: "runWithConcurrency fetch us ?tmp limit schedule (w2\<lparr>progress := 0\<rparr>) = Some w3"
    using a assms r2 by (cases "runWithConcurrency fetch us ?tmp limit schedule (w2\<lparr>progress := 0\<rparr>)") simp_all
  obtain r4 w4 where 4: "mergeTsFiles ?tmp out (w3\<lparr>console := console w3 @ [MergeStarted]\<rparr>) = (r4, w4)"
    by (cases "mergeTsFiles ?tmp out (w3\<lparr>console := console w3 @ [MergeStarted]\<rparr>)")
  have b: "Some (Inr folder, w5) =
      Some (case r4 of Inl e \<Rightarrow> (Inl e, w4) | Inr u \<Rightarrow> (Inr ?tmp, w4\<lparr>console := console w4 @ [VideoSaved out]\<rparr>))"
    using a assms r2 3 4 by (simp add: andThen_def consoleLog_def split: sum.splits)
  then have r4: "r4 = Inr ()" by (cases r4) simp_all
  have e: "folder = ?tmp" "w5 = w4\<lparr>console := console w4 @ [VideoSaved out]\<rparr>"
    using b r4 by simp_all
  show ?thesis
  proof (rule that[of us w1 w2 w3 w4])
    show "resolveSegments fetch prompt m3u8Url w0 = (Inr us, w1)" using 1 r1 by simp
    show "folder = workspaceOf w0" using e(1) tmp by simp
    show "(if \<not> existsSync folder w1 then mkdirSync folder w1 else (Inr (), w1)) = (Inr (), w2)"
      unfolding e(1) 2 r2 by (rule refl)
    show "runWithConcurrency fetch us folder limit schedule (w2\<lparr>progress := 0\<rparr>) = Some w3"
      unfolding e(1) by (rule 3)
    show "mergeTsFiles folder out (w3\<lparr>console := console w3 @ [MergeStarted]\<rparr>) = (Inr (), w4)"
      unfolding e(1) 4 r4 by (rule refl)
    show "w5 = w4\<lparr>console := console w4 @ [VideoSaved out]\<rparr>" by (rule e(2))
  qed
qed

lemma fetchAndMerge_end:
  assumes "fetchAndMerge fetch prompt m3u8Url limit out schedule w0 = Some (Inr folder, w5)"
  shows "folder = workspaceOf w0" and "dirs w5 folder \<noteq> None" and "rm_refused w5 = rm_refused w0"
proof -
  from assms obtain us w1 w2 w3 w4 where s: "resolveSegments fetch prompt m3u8Url w0 = (Inr us, w1)"
    "folder = workspaceOf w0"
    "(if \<not> existsSync folder w1 then mkdirSync folder w1 else (Inr (), w1)) = (Inr (), w2)"
    "runWithConcurrency fetch us folder limit schedule (w2\<lparr>progress := 0\<rparr>) = Some w3"
    "mergeTsFiles folder out (w3\<lparr>console := console w3 @ [MergeStarted]\<rparr>) = (Inr (), w4)"
    "w5 = w4\<lparr>console := console w4 @ [VideoSaved out]\<rparr>"
    by (rule fetchAndMerge_stages)
  show "folder = workspaceOf w0" by (rule s(2))
  have 1: "rm_refused w1 = rm_refused w0" by (subst resolveSegments_net[OF s(1)]) simp
  have 2: "dirs w2 folder \<noteq> None \<and> rm_refused w2 = rm_refused w1"
    using s(3) by (auto simp: existsSync_def mkdirSync_def split: if_splits option.splits)
  have 3: "dirs w3 folder \<noteq> None \<and> rm_refused w3 = rm_refused w2"
    using tasksOnly_runWithConcurrency[OF s(4)] 2 by (simp add: tasksOnly_def)
  have 4: "dirs w4 folder \<noteq> None \<and> rm_refused w4 = rm_refused w3"
    using mergeTsFiles_fsOnly[OF s(5)] 3 by (auto simp: fsOnly_def)
  show "dirs w5 folder \<noteq> None" using 4 by (simp add: s(6))
  show "rm_refused w5 = rm_refused w0" using 1 2 3 4 by (simp add: s(6))
qed

text \<open>Whatever the network and the operating system do, there is a schedule along which the run ends.\<close>

lemma downloadM3u8_completes:
  "\<exists>schedule r. downloadM3u8 fetch prompt m3u8Url limit out schedule w0 = Some r"
proof -
  obtain r1 w1 where 1: "resolveSegments fetch prompt m3u8Url w0 = (r1, w1)"
    by (cases "resolveSegments fetch prompt m3u8Url w0")
  let ?tmp = "workspaceOf w1"
  obtain r2 w2 where 2: "(if \<not> existsSync ?tmp w1 then mkdirSync ?tmp w1 else (Inr (), w1)) = (r2, w2)"
    by (cases "(if \<not> existsSync ?tmp w1 then mkdirSync ?tmp w1 else (Inr (), w1))")
  show ?thesis
  proof (cases r1)
    case (Inl e)
    then have "downloadM3u8 fetch prompt m3u8Url limit out [] w0 = Some (Inl e, w1)"
      using 1 by (simp add: downloadM3u8_def fetchAndMerge_unfold)
    then show ?thesis by blast
  next
    case (Inr us)
    have u: "fetchAndMerge fetch prompt m3u8Url limit out schedule w0 =
      (case r2 of Inl e \<Rightarrow> Some (Inl e, w2)
       | Inr u \<Rightarrow>
           (case runWithConcurrency fetch us ?tmp limit schedule (w2\<lparr>progress := 0\<rparr>) of
              None \<Rightarrow> None
            | Some w3 \<Rightarrow>
                Some (andThen (consoleLog MergeStarted) (\<lambda>u.
                      andThen (mergeTsFiles ?tmp out) (\<lambda>u.
                      andThen (consoleLog (VideoSaved out)) (\<lambda>u w.
                      (Inr ?tmp, w)))) w3)))" for schedule
      unfolding fetchAndMerge_unfold 1 Inr prod.case sum.case 2 by (simp split: sum.splits)
    show ?thesis
    proof (cases r2)
      case (Inl e)
      then have "downloadM3u8 fetch prompt m3u8Url limit out [] w0 = Some (Inl e, w2)"
        by (simp add: downloadM3u8_def u)
      then show ?thesis by blast
    next
      case ok: (Inr x)
      from runWithConcurrency_completes[of fetch us ?tmp limit "w2\<lparr>progress := 0\<rparr>"]
      obtain schedule w3 where 3: "runWithConcurrency fetch us ?tmp limit schedule (w2\<lparr>progress := 0\<rparr>) = Some w3"
        by blast
      have "fetchAndMerge fetch prompt m3u8Url limit out schedule w0 \<noteq> None"
        using ok 3 by (simp add: u)
      then have "downloadM3u8 fetch prompt m3u8Url limit out schedule w0 \<noteq> None"
        by (auto simp: downloadM3u8_def split: sum.splits)
      then show ?thesis by blast
    qed
  qed
qed

subsection \<open>The example run\<close>

lemma example_names:
  "segmentFileName 0 = ''00000.ts''" "segmentFileName 1 = ''00001.ts''" "segmentFileName 2 = ''00002.ts''"
  by (simp_all add: segmentFileName_def padStart_def toString.simps digit_char_def eval_nat_numeral)

lemma example_tasks:
  fixes w :: "'n world"
  shows "k < 3 \<Longrightarrow> advance (stationary exampleNet) ''http://h/a/s1.ts'' i folder (Fetching k) w = (Fetching (k + 1), w)"
    and "k = 3 \<Longrightarrow> advance (stationary exampleNet) ''http://h/a/s1.ts'' i folder (Fetching k) w =
           (Finished, w\<lparr>console := console w @ [DownloadFailed ''http://h/a/s1.ts'' ''HTTP 404'']\<rparr>)"
    and "advance (stationary exampleNet) ''http://h/a/s0.ts'' i folder (Fetching 0) w = (Writing 0 ''AA'', w)"
    and "advance (stationary exampleNet) ''http://h/a/s2.ts'' i folder (Fetching 0) w = (Writing 0 ''CC'', w)"
  by (simp_all add: stationary_def exampleNet_def attemptFails_def toString.simps digit_char_def)

lemma example_write:
  assumes "dirs w folder = Some es" and "map_of es (segmentFileName i) = None"
    and "open_refused w (folder, segmentFileName i) = None"
  shows "advance fetch u i folder (Writing k b) w =
           (Finished, w\<lparr>dirs := (dirs w)(folder \<mapsto> es @ [(segmentFileName i, File b)]), progress := progress w + 1\<rparr>)"
proof -
  have "AList.update (segmentFileName i) (File b) es = es @ [(segmentFileName i, File b)]"
    using assms(2) by (induction es) (auto split: if_splits)
  then show ?thesis
    using assms
    by (simp add: writeFile_def openForWriting_def appendBytes_def pathJoin_def dirname_def basename_def
        update_conv' update_last)
qed

lemma example_run:
  fixes w :: "'n world"
  assumes "dirs w ''ts_temp/7'' = Some []" and "open_refused w = Map.empty"
  shows "runWithConcurrency (stationary exampleNet)
           [''http://h/a/s0.ts'', ''http://h/a/s1.ts'', ''http://h/a/s2.ts''] ''ts_temp/7'' 2 exampleSchedule w =
         Some (w\<lparr>dirs := (dirs w)(''ts_temp/7'' \<mapsto> [(''00000.ts'', File ''AA''), (''00002.ts'', File ''CC'')]),
                 console := console w @ [DownloadFailed ''http://h/a/s1.ts'' ''HTTP 404''],
                 progress := progress w + 2\<rparr>)"
  using assms
  by (simp add: runWithConcurrency_def exampleSchedule_def startOfRun_def initial_def startNext_def
      callTask_def awaitRace_def awaitAll_def subscribeAll_def settle_def Let_def example_tasks
      example_write example_names del: advance.simps)

lemma exampleNet_manifest:
  "exampleNet ''http://h/a/i.m3u8'' = Inr (Response True 200 ''#EXTM3U\<newline>s0.ts\<newline>s1.ts\<newline>s2.ts'')"
  "\<not> includesStr ''#EXTM3U\<newline>s0.ts\<newline>s1.ts\<newline>s2.ts'' ''#EXT-X-STREAM-INF''"
  "parseText ''http://h/a/i.m3u8'' ''#EXTM3U\<newline>s0.ts\<newline>s1.ts\<newline>s2.ts'' =
     [''http://h/a/s0.ts'', ''http://h/a/s1.ts'', ''http://h/a/s2.ts'']"
  by (simp_all add: exampleNet_def startsWith_def parseText_def baseUrlOf_def trim_def isWhiteSpace_def)

lemma example_resolve:
  "resolveSegments (stationary exampleNet) prompt ''http://h/a/i.m3u8'' w =
     (Inr [''http://h/a/s0.ts'', ''http://h/a/s1.ts'', ''http://h/a/s2.ts''], w)"
  by (simp add: resolveSegments_def andThen_def onNet_def isMasterPlaylist_def parseM3u8_def
      stationary_def exampleNet_manifest startsWith_def)

text \<open>The world of the example when the assembly has completed, with what the removal is refused for.\<close>

lemma example_assembled:
  "fetchAndMerge (stationary exampleNet) prompt ''http://h/a/i.m3u8'' 2 (''downloads'', ''out.ts'')
     exampleSchedule ((freshWorld 7)\<lparr>rm_refused := R\<rparr>) =
   Some (Inr ''ts_temp/7'',
     \<lparr> net = (), clock = 7,
       dirs = [''ts_temp/7'' \<mapsto> [(''00000.ts'', File ''AA''), (''00002.ts'', File ''CC'')],
               ''downloads'' \<mapsto> [(''out.ts'', File ''AACC'')]],
       console = [DownloadFailed ''http://h/a/s1.ts'' ''HTTP 404'', MergeStarted, VideoSaved (''downloads'', ''out.ts'')],
       progress = 2, mkdir_refused = Map.empty, open_refused = Map.empty, rm_refused = R \<rparr>)"
proof -
  let ?w0 = "(freshWorld 7)\<lparr>rm_refused := R\<rparr>"
  let ?out = "(''downloads'', ''out.ts'')"
  let ?us = "[''http://h/a/s0.ts'', ''http://h/a/s1.ts'', ''http://h/a/s2.ts'']"
  let ?es = "[(''00000.ts'', File ''AA''), (''00002.ts'', File ''CC'')]"
  define w1 where "w1 = ?w0\<lparr>dirs := (dirs ?w0)(''ts_temp/7'' \<mapsto> [])\<rparr>"
  define w3 where "w3 = (w1\<lparr>progress := 0\<rparr>)\<lparr>dirs := (dirs (w1\<lparr>progress := 0\<rparr>))(''ts_temp/7'' \<mapsto> ?es),
       console := console (w1\<lparr>progress := 0\<rparr>) @ [DownloadFailed ''http://h/a/s1.ts'' ''HTTP 404''],
       progress := progress (w1\<lparr>progress := 0\<rparr>) + 2\<rparr>"
  define w4 where "w4 = w3\<lparr>console := console w3 @ [MergeStarted]\<rparr>"
  define w5 where "w5 = w4\<lparr>dirs := (dirs w4)(dirname ?out \<mapsto>
      AList.update (basename ?out) (File (concat (map (fileBytes ?es) [''00000.ts'', ''00002.ts''])))
        (case dirs w4 (dirname ?out) of None \<Rightarrow> [] | Some esd \<Rightarrow> esd))\<rparr>"
  have ws: "workspaceOf ?w0 = ''ts_temp/7''"
    by (simp add: workspaceOf_def freshWorld_def worldWith_def toString.simps digit_char_def)
  have mk: "(if \<not> existsSync ''ts_temp/7'' ?w0 then mkdirSync ''ts_temp/7'' ?w0 else (Inr (), ?w0)) = (Inr (), w1)"
    by (simp add: existsSync_def mkdirSync_def freshWorld_def worldWith_def w1_def)
  have run: "runWithConcurrency (stationary exampleNet) ?us ''ts_temp/7'' 2 exampleSchedule (w1\<lparr>progress := 0\<rparr>) = Some w3"
    unfolding w3_def by (rule example_run) (simp_all add: w1_def freshWorld_def worldWith_def)
  have d4: "dirs w4 ''ts_temp/7'' = Some ?es"
    by (simp add: w4_def w3_def)
  have k: "sort (filter (\<lambda>f. endsWith f ''.ts'') (map fst ?es)) = [''00000.ts'', ''00002.ts'']"
    by (simp add: endsWith_def)
  have merge: "mergeTsFiles ''ts_temp/7'' ?out w4 = (Inr (), w5)"
    unfolding w5_def
    by (rule mergeTsFiles_written(1)[OF d4 k])
      (simp_all add: isFile_def pathJoin_def writable_def dirname_def basename_def
        w4_def w3_def w1_def freshWorld_def worldWith_def)
  have "fetchAndMerge (stationary exampleNet) prompt ''http://h/a/i.m3u8'' 2 ?out exampleSchedule ?w0 =
      Some (Inr ''ts_temp/7'', w5\<lparr>console := console w5 @ [VideoSaved ?out]\<rparr>)"
    unfolding fetchAndMerge_unfold example_resolve prod.case sum.case ws mk run option.case
      andThen_def consoleLog_def w4_def[symmetric] merge
    by simp
  moreover have "w5\<lparr>console := console w5 @ [VideoSaved ?out]\<rparr> =
     \<lparr> net = (), clock = 7,
       dirs = [''ts_temp/7'' \<mapsto> ?es, ''downloads'' \<mapsto> [(''out.ts'', File ''AACC'')]],
       console = [DownloadFailed ''http://h/a/s1.ts'' ''HTTP 404'', MergeStarted, VideoSaved ?out],
       progress = 2, mkdir_refused = Map.empty, open_refused = Map.empty, rm_refused = R \<rparr>"
    by (simp add: w5_def w4_def w3_def w1_def freshWorld_def worldWith_def dirname_def basename_def
        fileBytes_def fun_upd_twist)
  ultimately show ?thesis by simp
qed

subsection \<open>The removal of the workspace\<close>

text \<open>
  Claim C8, as amended. \<open>cleanup\<close> removes the folder recursively and with \<open>force\<close>: a
  folder that does not exist is not an error, and when the removal is not refused the
  folder is gone afterwards. A refused removal is thrown by \<open>cleanup\<close>. \<open>downloadM3u8\<close>
  calls \<open>cleanup\<close> last and outside any \<open>try\<close>. So on every network, for every limit and
  along every schedule: when the assembly has completed, whichever segments have failed,
  the temporary folder is the workspace of the run and still exists, and the run removes it
  and returns normally when the removal is not refused, and throws the error of the
  removal, with the workspace still there, when it is refused. A run that returns normally
  has removed its workspace.
\<close>

theorem cleanup_failure_propagates:
  fixes w :: "'n world" and w0 :: "'m world"
  shows
  "(dirs w folder = None \<longrightarrow> cleanup folder w = (Inr (), w)) \<and>
   (rm_refused w folder = None \<longrightarrow>
      fst (cleanup folder w) = Inr () \<and> dirs (snd (cleanup folder w)) folder = None) \<and>
   (\<forall>msg. dirs w folder \<noteq> None \<and> rm_refused w folder = Some msg \<longrightarrow>
      cleanup folder w = (Inl (Error msg), w)) \<and>
   (\<forall>tempFolder w5.
      fetchAndMerge fetch prompt m3u8Url maxConcurrency outputPath schedule w0 = Some (Inr tempFolder, w5) \<longrightarrow>
        tempFolder = workspaceOf w0 \<and> dirs w5 tempFolder \<noteq> None \<and>
        downloadM3u8 fetch prompt m3u8Url maxConcurrency outputPath schedule w0 =
          Some (case rm_refused w0 tempFolder of
                  None \<Rightarrow> (Inr (), w5\<lparr>dirs := (dirs w5)(tempFolder := None)\<rparr>)
                | Some msg \<Rightarrow> (Inl (Error msg), w5))) \<and>
   (\<forall>w'. downloadM3u8 fetch prompt m3u8Url maxConcurrency outputPath schedule w0 = Some (Inr (), w') \<longrightarrow>
      dirs w' (workspaceOf w0) = None)"
proof -
  have a: "dirs w folder = None \<longrightarrow> cleanup folder w = (Inr (), w)"
    by (simp add: cleanup_def rmSync_def)
  have b: "rm_refused w folder = None \<longrightarrow>
      fst (cleanup folder w) = Inr () \<and> dirs (snd (cleanup folder w)) folder = None"
    by (simp add: cleanup_def rmSync_def)
  have c: "\<forall>msg. dirs w folder \<noteq> None \<and> rm_refused w folder = Some msg \<longrightarrow>
      cleanup folder w = (Inl (Error msg), w)"
    by (auto simp: cleanup_def rmSync_def)
  have d: "tempFolder = workspaceOf w0 \<and> dirs w5 tempFolder \<noteq> None \<and>
        downloadM3u8 fetch prompt m3u8Url maxConcurrency outputPath schedule w0 =
          Some (case rm_refused w0 tempFolder of
                  None \<Rightarrow> (Inr (), w5\<lparr>dirs := (dirs w5)(tempFolder := None)\<rparr>)
                | Some msg \<Rightarrow> (Inl (Error msg), w5))"
    if h: "fetchAndMerge fetch prompt m3u8Url maxConcurrency outputPath schedule w0 = Some (Inr tempFolder, w5)"
    for tempFolder w5
  proof -
    note e = fetchAndMerge_end[OF h]
    have "downloadM3u8 fetch prompt m3u8Url maxConcurrency outputPath schedule w0 =
        Some (cleanup tempFolder w5)"
      using h by (simp add: downloadM3u8_def)
    moreover have "cleanup tempFolder w5 =
        (case rm_refused w0 tempFolder of
           None \<Rightarrow> (Inr (), w5\<lparr>dirs := (dirs w5)(tempFolder := None)\<rparr>)
         | Some msg \<Rightarrow> (Inl (Error msg), w5))"
      using e(2,3) by (cases "rm_refused w0 tempFolder") (auto simp: cleanup_def rmSync_def)
    ultimately show ?thesis using e(1,2) by simp
  qed
  have e: "dirs w' (workspaceOf w0) = None"
    if h: "downloadM3u8 fetch prompt m3u8Url maxConcurrency outputPath schedule w0 = Some (Inr (), w')" for w'
  proof -
    from h obtain tempFolder w5 where
      f: "fetchAndMerge fetch prompt m3u8Url maxConcurrency outputPath schedule w0 = Some (Inr tempFolder, w5)"
      by (auto simp: downloadM3u8_def split: option.splits sum.splits)
    from d[OF f] h show ?thesis by (auto split: option.splits)
  qed
  from a b c d e show ?thesis by blast
qed

text \<open>
  The run of the example, with limit 2 and the tasks overlapping, in a world that refuses
  no removal: the assembly completes, though the second segment has failed, and the run
  returns normally with its workspace removed.
\<close>

theorem cleanup_failure_propagates_witness:
  "fetchAndMerge (stationary exampleNet) firstChoice ''http://h/a/i.m3u8'' 2 (''downloads'', ''out.ts'')
     exampleSchedule (freshWorld 7) \<noteq> None \<and>
   downloadM3u8 (stationary exampleNet) firstChoice ''http://h/a/i.m3u8'' 2 (''downloads'', ''out.ts'')
     exampleSchedule (freshWorld 7) \<noteq> None \<and>
   fst (the (downloadM3u8 (stationary exampleNet) firstChoice ''http://h/a/i.m3u8'' 2 (''downloads'', ''out.ts'')
     exampleSchedule (freshWorld 7))) = Inr () \<and>
   dirs (snd (the (downloadM3u8 (stationary exampleNet) firstChoice ''http://h/a/i.m3u8'' 2 (''downloads'', ''out.ts'')
     exampleSchedule (freshWorld 7)))) ''ts_temp/7'' = None \<and>
   cleanup ''ts_temp/7'' (freshWorld 7) = (Inr (), freshWorld 7)"
proof -
  let ?W = "freshWorld 7"
  let ?out = "(''downloads'', ''out.ts'')"
  let ?w5 = "\<lparr> net = (), clock = 7,
       dirs = [''ts_temp/7'' \<mapsto> [(''00000.ts'', File ''AA''), (''00002.ts'', File ''CC'')],
               ''downloads'' \<mapsto> [(''out.ts'', File ''AACC'')]],
       console = [DownloadFailed ''http://h/a/s1.ts'' ''HTTP 404'', MergeStarted, VideoSaved ?out],
       progress = 2, mkdir_refused = Map.empty, open_refused = Map.empty,
       rm_refused = (Map.empty :: string \<rightharpoonup> string) \<rparr>"
  have w: "?W\<lparr>rm_refused := Map.empty\<rparr> = ?W" by (simp add: freshWorld_def worldWith_def)
  have f: "fetchAndMerge (stationary exampleNet) firstChoice ''http://h/a/i.m3u8'' 2 ?out exampleSchedule ?W =
      Some (Inr ''ts_temp/7'', ?w5)"
    using example_assembled[of firstChoice Map.empty] unfolding w .
  have n: "dirs ?W ''ts_temp/7'' = None" "rm_refused ?W ''ts_temp/7'' = None"
    by (simp_all add: freshWorld_def worldWith_def)
  note t = cleanup_failure_propagates[where folder = "''ts_temp/7''" and w = ?W
      and fetch = "stationary exampleNet" and prompt = firstChoice and ?m3u8Url = "''http://h/a/i.m3u8''"
      and maxConcurrency = 2 and outputPath = ?out and schedule = exampleSchedule and ?w0.0 = ?W]
  note d = t[THEN conjunct2, THEN conjunct2, THEN conjunct2, THEN conjunct1, rule_format, OF f]
  from d[THEN conjunct2, THEN conjunct2] n(2) have "downloadM3u8 (stationary exampleNet) firstChoice ''http://h/a/i.m3u8'' 2 ?out exampleSchedule ?W =
      Some (Inr (), ?w5\<lparr>dirs := (dirs ?w5)(''ts_temp/7'' := None)\<rparr>)"
    by simp
  moreover from t[THEN conjunct1] n(1) have "cleanup ''ts_temp/7'' ?W = (Inr (), ?W)" by simp
  ultimately show ?thesis using f by simp
qed

text \<open>
  The claim as stated fails: when the operating system refuses to remove the workspace,
  with \<open>EPERM\<close> say, the run of the example ends with that error after the output was
  assembled, and the workspace is still there.
\<close>

theorem cleanup_failure_escalates_counterexample:
  "downloadM3u8 (stationary exampleNet) firstChoice ''http://h/a/i.m3u8'' 2 (''downloads'', ''out.ts'')
     exampleSchedule (refusingWorld 7 ''ts_temp/7'' ''EPERM'') \<noteq> None \<and>
   fst (the (downloadM3u8 (stationary exampleNet) firstChoice ''http://h/a/i.m3u8'' 2 (''downloads'', ''out.ts'')
     exampleSchedule (refusingWorld 7 ''ts_temp/7'' ''EPERM''))) = Inl (Error ''EPERM'') \<and>
   readFile (snd (the (downloadM3u8 (stationary exampleNet) firstChoice ''http://h/a/i.m3u8'' 2 (''downloads'', ''out.ts'')
     exampleSchedule (refusingWorld 7 ''ts_temp/7'' ''EPERM'')))) (''downloads'', ''out.ts'') = Some ''AACC'' \<and>
   dirs (snd (the (downloadM3u8 (stationary exampleNet) firstChoice ''http://h/a/i.m3u8'' 2 (''downloads'', ''out.ts'')
     exampleSchedule (refusingWorld 7 ''ts_temp/7'' ''EPERM'')))) ''ts_temp/7'' \<noteq> None"
  by (simp add: downloadM3u8_def refusingWorld_def example_assembled cleanup_def rmSync_def readFile_def
      dirname_def basename_def)

end
